theory Spec2Isabelle
  imports Complex_Main "HOL-Library.Multiset"
begin

section \<open>Overview\<close>

text \<open>
  A model of the genetic optimizer of influx-crypto-trader (\<open>Optimizer.genetic\<close> and the
  functions it is built from): the fitness of a finished trial, sampling, mutation and
  crossover of strategy options, tournament selection, the ranking that moves duplicates
  back, the breeding of a generation, and the task that runs the trials of one individual.
  Each function of the source is a function here, under its own name. What the source
  takes from outside is made explicit: the draws of \<open>Math.random()\<close> are a sequence that
  is passed along, the simulation engine is a parameter, an exception is a value, and the
  promises of the worker pool are the results of the tasks.
\<close>

section \<open>JavaScript numbers\<close>

text \<open>
  The optimizer computes with JavaScript numbers. A number is modelled as a real, or one of
  the three special values that the arithmetic of the source can produce: the two infinities
  and NaN. Rounding of the binary representation is not modelled, and the two zeros are
  identified (a zero divisor is taken as \<open>+0\<close>, which is the only zero divisor the
  optimizer can produce together with a non-zero dividend). What is modelled is where a
  division has a zero divisor, and what \<open><\<close>, \<open>>\<close> and \<open>===\<close> answer on NaN, since the
  source branches on them.
\<close>

datatype number = Num real | PosInf | NegInf | NaN

fun jneg :: "number \<Rightarrow> number" where
  "jneg (Num a) = Num (- a)"
| "jneg PosInf = NegInf"
| "jneg NegInf = PosInf"
| "jneg NaN = NaN"

fun jadd :: "number \<Rightarrow> number \<Rightarrow> number" where
  "jadd (Num a) (Num b) = Num (a + b)"
| "jadd NaN y = NaN"
| "jadd x NaN = NaN"
| "jadd PosInf NegInf = NaN"
| "jadd NegInf PosInf = NaN"
| "jadd PosInf y = PosInf"
| "jadd x PosInf = PosInf"
| "jadd NegInf y = NegInf"
| "jadd x NegInf = NegInf"

definition jsub :: "number \<Rightarrow> number \<Rightarrow> number" where
  "jsub x y = jadd x (jneg y)"

definition signed_inf :: "real \<Rightarrow> number" where
  "signed_inf s = (if s = 0 then NaN else if 0 < s then PosInf else NegInf)"

fun jmul :: "number \<Rightarrow> number \<Rightarrow> number" where
  "jmul (Num a) (Num b) = Num (a * b)"
| "jmul NaN y = NaN"
| "jmul x NaN = NaN"
| "jmul (Num a) PosInf = signed_inf a"
| "jmul (Num a) NegInf = signed_inf (- a)"
| "jmul PosInf (Num b) = signed_inf b"
| "jmul NegInf (Num b) = signed_inf (- b)"
| "jmul PosInf PosInf = PosInf"
| "jmul NegInf NegInf = PosInf"
| "jmul PosInf NegInf = NegInf"
| "jmul NegInf PosInf = NegInf"

fun jdiv :: "number \<Rightarrow> number \<Rightarrow> number" where
  "jdiv (Num a) (Num b) = (if b = 0 then signed_inf a else Num (a / b))"
| "jdiv NaN y = NaN"
| "jdiv x NaN = NaN"
| "jdiv (Num a) PosInf = Num 0"
| "jdiv (Num a) NegInf = Num 0"
| "jdiv PosInf (Num b) = (if b < 0 then NegInf else PosInf)"
| "jdiv NegInf (Num b) = (if b < 0 then PosInf else NegInf)"
| "jdiv PosInf PosInf = NaN"
| "jdiv PosInf NegInf = NaN"
| "jdiv NegInf PosInf = NaN"
| "jdiv NegInf NegInf = NaN"

text \<open>The comparison \<open>x < y\<close>: false as soon as one side is NaN.\<close>

fun jlt :: "number \<Rightarrow> number \<Rightarrow> bool" where
  "jlt (Num a) (Num b) = (a < b)"
| "jlt NaN y = False"
| "jlt x NaN = False"
| "jlt x NegInf = False"
| "jlt PosInf y = False"
| "jlt NegInf y = True"
| "jlt (Num a) PosInf = True"

definition jgt :: "number \<Rightarrow> number \<Rightarrow> bool" where
  "jgt x y = jlt y x"

text \<open>Strict equality \<open>x === y\<close> of two numbers: NaN is not equal to itself.\<close>

definition jeq :: "number \<Rightarrow> number \<Rightarrow> bool" where
  "jeq x y = (x \<noteq> NaN \<and> x = y)"

fun Math_sqrt :: "number \<Rightarrow> number" where
  "Math_sqrt (Num a) = (if a < 0 then NaN else Num (sqrt a))"
| "Math_sqrt PosInf = PosInf"
| "Math_sqrt NegInf = NaN"
| "Math_sqrt NaN = NaN"

fun Math_floor :: "number \<Rightarrow> number" where
  "Math_floor (Num a) = Num (of_int \<lfloor>a\<rfloor>)"
| "Math_floor x = x"

text \<open>\<open>Math.round\<close> rounds to the nearest integer, a half upwards.\<close>

fun Math_round :: "number \<Rightarrow> number" where
  "Math_round (Num a) = Num (of_int \<lfloor>a + 1 / 2\<rfloor>)"
| "Math_round x = x"

section \<open>Data model\<close>

text \<open>
  A value of a strategy option: the genome of an individual maps gene keys to numbers
  (numeric genes) or strings (categorical genes); reading past the end of a gene's list
  gives \<open>undefined\<close>.
\<close>

datatype jsval = JNum number | JStr string | JUndefined

text \<open>\<open>interface Fitness\<close>.\<close>

record Fitness =
  currentProfit :: number
  percentTradeWin :: number
  sharpeRatio :: number
  tradeFrequency :: number
  total :: number

text \<open>\<open>interface Gene\<close>: \<open>min_gene\<close> and \<open>max_gene\<close> are its \<open>min\<close> and \<open>max\<close>,
  \<open>integer\<close> is only ever tested for truth, an absent \<open>list\<close> is \<open>None\<close>. The bounds of
  a gene and the mutation rate are read from the configuration and are finite numbers;
  population size, elitism and the number of generations are whole numbers.\<close>

record Gene =
  key :: string
  min_gene :: real
  max_gene :: real
  integer :: bool
  list :: "string list option"

text \<open>
  An evaluation environment \<open>{start, stop}\<close>. The two date strings are represented by what
  \<open>new Date(s).getTime()\<close> makes of them: a number of milliseconds, NaN for a string that
  is no date.
\<close>

record Backtest =
  start :: number
  stop :: number

record GeneticOpts =
  silent :: bool
  threads :: nat
  generation :: int
  popSize :: int
  elitism :: int
  mutationRate :: real
  envs :: "Backtest list"
  genes :: "Gene list"

text \<open>The part of \<open>TraderConfig\<close> the optimizer reads or writes.\<close>

record EnvConfig =
  backtest :: Backtest
  aggTimes :: "string list"
  candleSetPlugins :: "string list"

record TraderConfig =
  name :: string
  stratOpts :: "string \<rightharpoonup> jsval"
  env :: EnvConfig
  flush :: bool

datatype Status = STOP | RUNNING | OtherStatus string

record PortfolioTrade =
  orderProfit :: number

text \<open>
  The simulation engine \<open>t.trader\<close> as far as the optimizer looks into it: its status, its
  configuration, and the two paths that \<open>deepFind\<close> follows, each \<open>None\<close> when the path
  ends in \<open>undefined\<close>.
\<close>

record Trader =
  trader_config :: TraderConfig
  status :: Status
  indicators_currentProfit :: "number option"
  tradeHistory :: "PortfolioTrade list option"

text \<open>\<open>class TraderWorker\<close>: \<open>fitnesses\<close> has no initialiser, so it is \<open>undefined\<close>
  (\<open>None\<close>) until the first record is pushed.\<close>

record TraderWorker =
  config :: TraderConfig
  trader :: Trader
  worker_silent :: bool
  fitnesses :: "Fitness list option"
  hasRunned :: bool

section \<open>Fitness evaluation\<close>

definition daysBetween :: "number \<Rightarrow> number \<Rightarrow> number" where
  "daysBetween date1 date2 =
     (let oneDay = Num (1000 * 60 * 60 * 24);
          diffms = jsub date2 date1
      in Math_round (jdiv diffms oneDay))"

definition calcSharpeRatio :: "PortfolioTrade list \<Rightarrow> number" where
  "calcSharpeRatio th =
     (let sumT = foldl (\<lambda>sum t. jadd sum (orderProfit t)) (Num 0) th;
          meanT = jdiv sumT (Num (real (length th)));
          squaredMeanDiff =
            foldl (\<lambda>sum t. jadd sum (jmul (jsub (orderProfit t) meanT) (jsub (orderProfit t) meanT)))
              (Num 0) th;
          stdDev = Math_sqrt (jdiv squaredMeanDiff (Num (real (length th))))
      in jdiv (jsub meanT (Num 0.005)) stdDev)"

text \<open>The two conditional expressions of \<open>calcFitness\<close> that rewrite a raw value.\<close>

definition penaliseProfit :: "number option \<Rightarrow> number" where
  "penaliseProfit raw =
     (case raw of None \<Rightarrow> Num (- 1)
      | Some p \<Rightarrow> if jeq p (Num 0) then Num (- 1) else p)"

definition clampSharpe :: "number \<Rightarrow> number" where
  "clampSharpe s = (if jlt s (Num 0) then Num 0 else if jgt s (Num 4) then Num 4 else s)"

definition calcFitness :: "TraderWorker \<Rightarrow> Fitness" where
  "calcFitness t =
     (let cp = penaliseProfit (indicators_currentProfit (trader t));
          th = (case tradeHistory (trader t) of None \<Rightarrow> [] | Some h \<Rightarrow> h);
          n = Num (real (length th));
          ptw = (if length th > 0
                 then jdiv (Num (real (length (filter (\<lambda>trade. jgt (orderProfit trade) (Num 0.002)) th)))) n
                 else Num 0);
          sr = clampSharpe (if length th > 1 then calcSharpeRatio th else Num 0);
          limit = Math_floor (jdiv (daysBetween (start (backtest (env (config t))))
                                                (stop (backtest (env (config t))))) (Num 14));
          tf = (if jgt n limit then Num 1 else jdiv n limit)
      in \<lparr> currentProfit = cp, percentTradeWin = ptw, sharpeRatio = sr, tradeFrequency = tf,
           total = jadd (jadd (jadd cp (jmul (Num 0.5) ptw)) (jmul (Num 0.5) tf)) (jdiv sr (Num 4)) \<rparr>)"

section \<open>Random source and sampling\<close>

text \<open>
  \<open>Math.random()\<close> is the only source of randomness. It is made explicit: a random source
  is a sequence of draws, and every function that draws takes the source and the position of
  the next draw and returns the position after its last draw. \<open>Math.random()\<close> answers in
  \<open>[0, 1)\<close>; theorems that need it assume it of the source.
\<close>

type_synonym random = "nat \<Rightarrow> real"

definition unit_draws :: "random \<Rightarrow> bool" where
  "unit_draws rnd = (\<forall>n. 0 \<le> rnd n \<and> rnd n < 1)"

text \<open>\<open>randomBetween(min, max, integer)\<close>, with the draw \<open>r\<close> of its call to
  \<open>Math.random()\<close> as last argument.\<close>

definition randomBetween :: "real \<Rightarrow> real \<Rightarrow> bool \<Rightarrow> real \<Rightarrow> real" where
  "randomBetween lo hi int_flag r =
     (if int_flag then of_int \<lfloor>r * (hi - lo + 1) + lo\<rfloor> else r * (hi - lo) + lo)"

text \<open>\<open>xs[randomBetween(0, xs.length - 1, true)]\<close>: an index outside the array reads
  \<open>undefined\<close>.\<close>

definition randomElement :: "'a list \<Rightarrow> real \<Rightarrow> 'a option" where
  "randomElement xs r =
     (let i = \<lfloor>randomBetween 0 (real (length xs) - 1) True r\<rfloor>
      in if 0 \<le> i \<and> i < int (length xs) then Some (xs ! nat i) else None)"

definition listValue :: "string list \<Rightarrow> real \<Rightarrow> jsval" where
  "listValue l r = (case randomElement l r of None \<Rightarrow> JUndefined | Some s \<Rightarrow> JStr s)"

section \<open>Constructing individuals\<close>

text \<open>
  Modelled from the spec: the constructor of \<open>TraderWorkerBase\<close> (imported from
  \<open>exports\<close>, not among the sources). The spec's simulation engine contract says the object
  is constructed from the strategy options, the name and the environment, and has a
  readable status and a portfolio; the worker keeps the configuration it is given, its
  engine \<open>t.trader\<close> is there from the start, carries the same configuration, is stopped
  and has no portfolio yet.
\<close>

definition newTraderWorker :: "TraderConfig \<Rightarrow> bool \<Rightarrow> TraderWorker" where
  "newTraderWorker cfg sil =
     \<lparr> config = cfg,
       trader = \<lparr> trader_config = cfg, status = STOP,
                  indicators_currentProfit = None, tradeHistory = None \<rparr>,
       worker_silent = sil, fitnesses = None, hasRunned = False \<rparr>"

text \<open>
  \<open>createTraderWorker\<close> first empties \<open>aggTimes\<close> and \<open>candleSetPlugins\<close> in the
  environment of the configuration it is handed, then constructs the worker from a copy
  of that configuration with the strategy options and the name replaced. (The two writes
  go into the object that was handed in. Every construction repeats them and nothing
  else reads the two fields, so the model keeps them in the result only.)
\<close>

definition createTraderWorker ::
  "TraderConfig \<Rightarrow> string \<Rightarrow> (string \<rightharpoonup> jsval) \<Rightarrow> bool \<Rightarrow> TraderWorker" where
  "createTraderWorker traderConfig nm opts sil =
     (let traderConfig' = traderConfig\<lparr> env := (env traderConfig)\<lparr> aggTimes := [], candleSetPlugins := [] \<rparr> \<rparr>;
          t = newTraderWorker (traderConfig'\<lparr> stratOpts := opts, name := nm \<rparr>) sil
      in t\<lparr> hasRunned := False \<rparr>)"

text \<open>Decimal digits of a natural number, for the names \<open>{name}-gen{g}-ind{i}\<close>.\<close>

fun digit_char :: "nat \<Rightarrow> char" where
  "digit_char n = (''0123456789'' ! (n mod 10))"

function string_of_nat :: "nat \<Rightarrow> string" where
  "string_of_nat n = (if n < 10 then [digit_char n] else string_of_nat (n div 10) @ [digit_char n])"
  by pat_completeness auto
termination
  by (relation "measure id") auto

definition string_of_int :: "int \<Rightarrow> string" where
  "string_of_int i = (if i < 0 then ''-'' @ string_of_nat (nat (- i)) else string_of_nat (nat i))"

definition indivName :: "TraderConfig \<Rightarrow> int \<Rightarrow> nat \<Rightarrow> string" where
  "indivName traderConfig gen ind =
     name traderConfig @ ''-gen'' @ string_of_int gen @ ''-ind'' @ string_of_nat ind"

text \<open>One step of the \<open>forEach\<close> of \<open>randomIndiv\<close>: the state is the options built so far
  and the position in the random source.\<close>

definition sampleGene :: "random \<Rightarrow> Gene \<Rightarrow> (string \<rightharpoonup> jsval) \<times> nat \<Rightarrow> (string \<rightharpoonup> jsval) \<times> nat" where
  "sampleGene rnd g st =
     (case st of (newOpts, n) \<Rightarrow>
        (case list g of
           Some l \<Rightarrow> (newOpts(key g \<mapsto> listValue l (rnd n)), Suc n)
         | None \<Rightarrow> (newOpts(key g \<mapsto> JNum (Num (randomBetween (min_gene g) (max_gene g) (integer g) (rnd n)))), Suc n)))"

definition randomIndiv ::
  "TraderConfig \<Rightarrow> GeneticOpts \<Rightarrow> int \<Rightarrow> nat \<Rightarrow> random \<Rightarrow> nat \<Rightarrow> TraderWorker \<times> nat" where
  "randomIndiv traderConfig opts gen ind rnd n =
     (case fold (sampleGene rnd) (genes opts) (stratOpts traderConfig, n) of
        (newOpts, n') \<Rightarrow>
          (createTraderWorker traderConfig (indivName traderConfig gen ind) newOpts (silent opts), n'))"

section \<open>Mutation and crossover\<close>

text \<open>
  \<open>oldOpts[g.key] + diff\<close> in \<open>mutate\<close>: the operand read from the parent's options as a
  number. A missing entry and \<open>undefined\<close> add up to NaN. For a numeric gene the options
  hold a number; a string operand (which would turn \<open>+\<close> into a concatenation) is outside
  what is modelled and is read as NaN too.
\<close>

definition numberOf :: "jsval option \<Rightarrow> number" where
  "numberOf v = (case v of Some (JNum x) \<Rightarrow> x | _ \<Rightarrow> NaN)"

text \<open>The numeric branch of \<open>mutate\<close> for one gene; \<open>r_dir\<close> and \<open>r_step\<close> are the draws
  for the direction and for the size of the move.\<close>

definition perturb :: "Gene \<Rightarrow> jsval option \<Rightarrow> real \<Rightarrow> real \<Rightarrow> jsval" where
  "perturb g old r_dir r_step =
     (let direction = (if randomBetween 0 1 True r_dir = 0 then - 1 else 1);
          range = max_gene g - min_gene g;
          diff = range * randomBetween 0.005 0.5 False r_step * direction;
          newVal = jadd (numberOf old) (Num diff);
          newVal = (if jlt newVal (Num (min_gene g)) then Num (min_gene g)
                    else if jgt newVal (Num (max_gene g)) then Num (max_gene g) else newVal)
      in JNum (if integer g then Math_floor newVal else newVal))"

definition mutateGene ::
  "random \<Rightarrow> real \<Rightarrow> (string \<rightharpoonup> jsval) \<Rightarrow> Gene \<Rightarrow> (string \<rightharpoonup> jsval) \<times> nat \<Rightarrow> (string \<rightharpoonup> jsval) \<times> nat" where
  "mutateGene rnd rate oldOpts g st =
     (case st of (newOpts, n) \<Rightarrow>
        if randomBetween 0 1 False (rnd n) \<le> rate then
          (case list g of
             Some l \<Rightarrow> (newOpts(key g \<mapsto> listValue l (rnd (n + 1))), n + 2)
           | None \<Rightarrow> (newOpts(key g \<mapsto> perturb g (oldOpts (key g)) (rnd (n + 1)) (rnd (n + 2))), n + 3))
        else (newOpts, n + 1))"

definition mutate ::
  "TraderConfig \<Rightarrow> TraderWorker \<Rightarrow> GeneticOpts \<Rightarrow> int \<Rightarrow> nat \<Rightarrow> random \<Rightarrow> nat \<Rightarrow> TraderWorker \<times> nat" where
  "mutate traderConfig t opts gen ind rnd n =
     (let oldOpts = stratOpts (config t) in
      case fold (mutateGene rnd (mutationRate opts) oldOpts) (genes opts) (oldOpts, n) of
        (newOpts, n') \<Rightarrow>
          (createTraderWorker traderConfig (indivName traderConfig gen ind) newOpts (silent opts), n'))"

text \<open>The two \<open>forEach\<close> loops of \<open>crossover\<close>. Reading a gene that parent A does not have
  stores \<open>undefined\<close>.\<close>

definition valueOf :: "jsval option \<Rightarrow> jsval" where
  "valueOf v = (case v of None \<Rightarrow> JUndefined | Some x \<Rightarrow> x)"

definition crossGene ::
  "random \<Rightarrow> (string \<rightharpoonup> jsval) \<Rightarrow> Gene \<Rightarrow> (string \<rightharpoonup> jsval) \<times> nat \<Rightarrow> (string \<rightharpoonup> jsval) \<times> nat" where
  "crossGene rnd optsA g st =
     (case st of (newOpts, n) \<Rightarrow>
        if randomBetween 0 1 False (rnd n) < 0.5 then
          (case list g of
             Some l \<Rightarrow> (newOpts(key g \<mapsto> listValue l (rnd (n + 1))), n + 2)
           | None \<Rightarrow> (newOpts(key g \<mapsto> valueOf (optsA (key g))), n + 1))
        else (newOpts, n + 1))"

definition resampleGene ::
  "random \<Rightarrow> real \<Rightarrow> Gene \<Rightarrow> (string \<rightharpoonup> jsval) \<times> nat \<Rightarrow> (string \<rightharpoonup> jsval) \<times> nat" where
  "resampleGene rnd rate g st =
     (case st of (newOpts, n) \<Rightarrow>
        if randomBetween 0 1 False (rnd n) \<le> rate then
          (case list g of
             Some l \<Rightarrow> (newOpts(key g \<mapsto> listValue l (rnd (n + 1))), n + 2)
           | None \<Rightarrow> (newOpts(key g \<mapsto> JNum (Num (randomBetween (min_gene g) (max_gene g) (integer g) (rnd (n + 1))))), n + 2))
        else (newOpts, n + 1))"

definition crossover ::
  "string \<Rightarrow> TraderWorker \<Rightarrow> TraderWorker \<Rightarrow> GeneticOpts \<Rightarrow> random \<Rightarrow> nat \<Rightarrow> TraderWorker \<times> nat" where
  "crossover nm traderA traderB opts rnd n =
     (case fold (crossGene rnd (stratOpts (config traderA))) (genes opts) (stratOpts (config traderB), n) of
        (crossed, n1) \<Rightarrow>
          (case (if randomBetween 0 1 False (rnd n1) < 0.25
                 then fold (resampleGene rnd (mutationRate opts)) (genes opts) (crossed, n1 + 1)
                 else (crossed, n1 + 1)) of
             (newOpts, n2) \<Rightarrow>
               (createTraderWorker (trader_config (trader traderA)) nm newOpts (silent opts), n2)))"

section \<open>Errors\<close>

text \<open>
  An exception is a value. \<open>TypeError\<close> is what JavaScript throws on reading a property of
  \<open>undefined\<close> or iterating over it; \<open>EngineError\<close> stands for whatever the simulation
  engine throws.
\<close>

datatype error = TypeError | EngineError string | MathjsError | OptimizationError

definition ebind :: "error + 'a \<Rightarrow> ('a \<Rightarrow> error + 'b) \<Rightarrow> error + 'b" where
  "ebind m f = (case m of Inl e \<Rightarrow> Inl e | Inr x \<Rightarrow> f x)"

section \<open>Aggregate fitness\<close>

text \<open>\<open>fitness[key]\<close>: a key that is no field reads \<open>undefined\<close>, which makes the sum NaN,
  as a NaN summand does.\<close>

definition fitnessAt :: "Fitness \<Rightarrow> string \<Rightarrow> number" where
  "fitnessAt f k =
     (if k = ''currentProfit'' then currentProfit f
      else if k = ''percentTradeWin'' then percentTradeWin f
      else if k = ''sharpeRatio'' then sharpeRatio f
      else if k = ''tradeFrequency'' then tradeFrequency f
      else if k = ''total'' then total f
      else NaN)"

text \<open>The body of \<open>getFitness\<close> on a defined list of records: the sum of the metric divided
  by the number of records (NaN for no record).\<close>

definition score :: "Fitness list \<Rightarrow> string \<Rightarrow> number" where
  "score fs k = jdiv (foldl (\<lambda>sum f. jadd sum (fitnessAt f k)) (Num 0) fs) (Num (real (length fs)))"

text \<open>\<open>getFitness(trader, key)\<close>: iterating over \<open>trader.fitnesses\<close> throws when no record
  was ever pushed.\<close>

definition getFitness :: "TraderWorker \<Rightarrow> string \<Rightarrow> error + number" where
  "getFitness t k = (case fitnesses t of None \<Rightarrow> Inl TypeError | Some fs \<Rightarrow> Inr (score fs k))"

text \<open>The comparator \<open>(a, b) => getFitness(b) - getFitness(a)\<close>.\<close>

definition byFitnessDesc :: "TraderWorker \<Rightarrow> TraderWorker \<Rightarrow> error + number" where
  "byFitnessDesc a b =
     ebind (getFitness b ''total'') (\<lambda>fb. ebind (getFitness a ''total'') (\<lambda>fa. Inr (jsub fb fa)))"

section \<open>Sorting\<close>

text \<open>
  \<open>Array.prototype.sort\<close> with a comparator. The sort is stable (ECMAScript 2019): \<open>y\<close>
  overtakes an earlier \<open>x\<close> only when the comparator puts \<open>y\<close> strictly first, that is when
  \<open>cmp(x, y) > 0\<close>. For a comparator that is a consistent order there is one stable
  arrangement, computed here by insertion from the right; an exception of the comparator
  ends the sort. Where the comparator answers NaN the language leaves the arrangement to the
  implementation, so theorems about the order assume aggregate fitness values that are
  reals.
\<close>

fun insertSorted :: "('a \<Rightarrow> 'a \<Rightarrow> error + number) \<Rightarrow> 'a \<Rightarrow> 'a list \<Rightarrow> error + 'a list" where
  "insertSorted cmp x [] = Inr [x]"
| "insertSorted cmp x (y # ys) =
     ebind (cmp x y) (\<lambda>v.
       if jgt v (Num 0) then ebind (insertSorted cmp x ys) (\<lambda>zs. Inr (y # zs))
       else Inr (x # y # ys))"

fun Array_sort :: "('a \<Rightarrow> 'a \<Rightarrow> error + number) \<Rightarrow> 'a list \<Rightarrow> error + 'a list" where
  "Array_sort cmp [] = Inr []"
| "Array_sort cmp (x # xs) = ebind (Array_sort cmp xs) (insertSorted cmp x)"

text \<open>\<open>xs.slice(0, end)\<close> for an integer \<open>end\<close>: a negative \<open>end\<close> counts from the end.\<close>

definition slice0 :: "'a list \<Rightarrow> int \<Rightarrow> 'a list" where
  "slice0 xs e = take (nat (if e < 0 then int (length xs) + e else e)) xs"

text \<open>\<open>xs.splice(i, 0, x)\<close>: insert \<open>x\<close> at index \<open>i\<close>.\<close>

definition splice :: "'a list \<Rightarrow> nat \<Rightarrow> 'a \<Rightarrow> 'a list" where
  "splice xs i x = take i xs @ [x] @ drop i xs"

section \<open>De-duplication ranking\<close>

text \<open>
  The \<open>forEach\<close> of \<open>breedNewGeneration\<close> that rebuilds the sorted generation. The state is
  \<open>generationResort\<close> and \<open>currentIdx\<close>; \<open>prev\<close> is \<open>generation[idx - 1]\<close>. (The local variable
  \<open>generation\<close> of the source is called \<open>population\<close> here, \<open>generation\<close> being the
  field of \<open>GeneticOpts\<close>.)
\<close>

fun resortFrom ::
  "TraderWorker \<Rightarrow> TraderWorker list \<Rightarrow> TraderWorker list \<times> nat \<Rightarrow> error + TraderWorker list \<times> nat" where
  "resortFrom prev [] st = Inr st"
| "resortFrom prev (indiv # rest) st =
     ebind (getFitness indiv ''total'') (\<lambda>fi.
     ebind (getFitness prev ''total'') (\<lambda>fp.
       case st of (generationResort, currentIdx) \<Rightarrow>
         resortFrom indiv rest
           (if jeq (jsub fi fp) (Num 0) then (generationResort @ [indiv], currentIdx)
            else (splice generationResort currentIdx indiv, currentIdx + 1))))"

definition resort :: "TraderWorker list \<Rightarrow> error + TraderWorker list" where
  "resort population =
     (case population of
        [] \<Rightarrow> Inr []
      | first # rest \<Rightarrow> ebind (resortFrom first rest ([first], 1)) (\<lambda>st. Inr (fst st)))"

text \<open>The ranking as a whole: the descending sort, then the rebuild.\<close>

definition rankGeneration :: "TraderWorker list \<Rightarrow> error + TraderWorker list" where
  "rankGeneration population = ebind (Array_sort byFitnessDesc population) resort"

section \<open>Tournament selection\<close>

text \<open>
  An element read from an array may be \<open>undefined\<close> (\<open>None\<close>): \<open>getFitness(undefined)\<close>
  throws on reading \<open>fitnesses\<close>.
\<close>

definition getFitnessU :: "TraderWorker option \<Rightarrow> string \<Rightarrow> error + number" where
  "getFitnessU u k = (case u of None \<Rightarrow> Inl TypeError | Some t \<Rightarrow> getFitness t k)"

fun checkSameFitness :: "TraderWorker option list \<Rightarrow> number \<Rightarrow> error + bool" where
  "checkSameFitness [] fitness = Inr False"
| "checkSameFitness (t # indivs) fitness =
     ebind (getFitnessU t ''total'') (\<lambda>f.
       if jeq f fitness then Inr True else checkSameFitness indivs fitness)"

text \<open>
  The \<open>while (j++ < generation.length && checkSameFitness(...))\<close> loop: the first argument
  counts the iterations that are left, \<open>generation.length - j\<close>; the candidate's fitness is
  only computed while iterations are left.
\<close>

fun redraw ::
  "nat \<Rightarrow> TraderWorker list \<Rightarrow> random \<Rightarrow> TraderWorker option list \<Rightarrow> TraderWorker option \<Rightarrow> nat
     \<Rightarrow> error + TraderWorker option \<times> nat" where
  "redraw 0 population rnd traders candidate n = Inr (candidate, n)"
| "redraw (Suc k) population rnd traders candidate n =
     ebind (getFitnessU candidate ''total'') (\<lambda>f.
     ebind (checkSameFitness traders f) (\<lambda>same.
       if same then redraw k population rnd traders (randomElement population (rnd n)) (Suc n)
       else Inr (candidate, n)))"

text \<open>The \<open>for\<close> loop over the participants; the first argument counts those still to draw.\<close>

fun drawParticipants ::
  "nat \<Rightarrow> TraderWorker list \<Rightarrow> random \<Rightarrow> TraderWorker option list \<Rightarrow> nat
     \<Rightarrow> error + TraderWorker option list \<times> nat" where
  "drawParticipants 0 population rnd traders n = Inr (traders, n)"
| "drawParticipants (Suc i) population rnd traders n =
     ebind (redraw (length population) population rnd traders (randomElement population (rnd n)) (Suc n))
       (\<lambda>res. drawParticipants i population rnd (traders @ [fst res]) (snd res))"

text \<open>\<open>Array.prototype.sort\<close> moves \<open>undefined\<close> elements to the end without asking the
  comparator.\<close>

definition tournamentSelection ::
  "TraderWorker list \<Rightarrow> nat \<Rightarrow> random \<Rightarrow> nat \<Rightarrow> error + TraderWorker option list \<times> nat" where
  "tournamentSelection population participant rnd n =
     ebind (drawParticipants participant population rnd [] n) (\<lambda>res.
     ebind (Array_sort byFitnessDesc (List.map_filter (\<lambda>u. u) (fst res))) (\<lambda>sorted.
       Inr (slice0 (map Some sorted @ filter (\<lambda>u. u = None) (fst res)) 2, snd res)))"

definition elemAt :: "'a option list \<Rightarrow> nat \<Rightarrow> 'a option" where
  "elemAt xs i = (if i < length xs then xs ! i else None)"

section \<open>Breeding and population synthesis\<close>

text \<open>
  The \<open>while (newGeneration.length < opts.popSize)\<close> loop. Every iteration pushes one
  individual, so the first argument counts the iterations that are left. \<open>population\<close> is
  the ranked generation. Calling \<open>crossover\<close> or \<open>mutate\<close> on \<open>undefined\<close> throws.
\<close>

fun breedLoop ::
  "nat \<Rightarrow> TraderConfig \<Rightarrow> TraderWorker list \<Rightarrow> GeneticOpts \<Rightarrow> int \<Rightarrow> random
     \<Rightarrow> TraderWorker list \<Rightarrow> nat \<Rightarrow> error + TraderWorker list \<times> nat" where
  "breedLoop 0 traderConfig population opts gen rnd newGeneration n = Inr (newGeneration, n)"
| "breedLoop (Suc k) traderConfig population opts gen rnd newGeneration n =
     (let rand = randomBetween 0 1 False (rnd n) in
      if rand < 0.6 then
        ebind (tournamentSelection population 4 rnd (Suc n)) (\<lambda>sel.
          case (elemAt (fst sel) 0, elemAt (fst sel) 1) of
            (Some t1, Some t2) \<Rightarrow>
              (case crossover (indivName traderConfig gen (length newGeneration)) t1 t2 opts rnd (snd sel) of
                 (child, n') \<Rightarrow>
                   breedLoop k traderConfig population opts gen rnd (newGeneration @ [child]) n')
          | _ \<Rightarrow> Inl TypeError)
      else if rand < 0.9 then
        (case randomElement population (rnd (Suc n)) of
           None \<Rightarrow> Inl TypeError
         | Some t \<Rightarrow>
             (case mutate traderConfig t opts gen (length newGeneration) rnd (Suc (Suc n)) of
                (child, n') \<Rightarrow>
                  breedLoop k traderConfig population opts gen rnd (newGeneration @ [child]) n'))
      else
        (case randomIndiv traderConfig opts gen (length newGeneration) rnd (Suc n) of
           (child, n') \<Rightarrow>
             breedLoop k traderConfig population opts gen rnd (newGeneration @ [child]) n'))"

definition breedNewGeneration ::
  "TraderConfig \<Rightarrow> TraderWorker list \<Rightarrow> GeneticOpts \<Rightarrow> int \<Rightarrow> random \<Rightarrow> nat
     \<Rightarrow> error + TraderWorker list \<times> nat" where
  "breedNewGeneration traderConfig population opts gen rnd n =
     ebind (rankGeneration population) (\<lambda>ranked.
       let bestIndivs = slice0 ranked (elitism opts)
       in breedLoop (nat (popSize opts - int (length bestIndivs)))
            traderConfig ranked opts gen rnd bestIndivs n)"

text \<open>The \<open>while (ind < opts.popSize)\<close> loop of \<open>makeGeneration\<close>; the first argument counts
  the iterations that are left.\<close>

fun makeFrom ::
  "nat \<Rightarrow> TraderConfig \<Rightarrow> GeneticOpts \<Rightarrow> int \<Rightarrow> nat \<Rightarrow> random \<Rightarrow> nat \<Rightarrow> TraderWorker list \<times> nat" where
  "makeFrom 0 traderConfig opts gen ind rnd n = ([], n)"
| "makeFrom (Suc k) traderConfig opts gen ind rnd n =
     (case (if ind = 0
            then (createTraderWorker traderConfig (indivName traderConfig gen ind)
                    (stratOpts traderConfig) (silent opts), n)
            else randomIndiv traderConfig opts gen ind rnd n) of
        (t, n') \<Rightarrow>
          (case makeFrom k traderConfig opts gen (Suc ind) rnd n' of
             (rest, n'') \<Rightarrow> (t # rest, n'')))"

definition makeGeneration ::
  "TraderConfig \<Rightarrow> GeneticOpts \<Rightarrow> int \<Rightarrow> random \<Rightarrow> nat \<Rightarrow> TraderWorker list \<times> nat" where
  "makeGeneration traderConfig opts gen rnd n = makeFrom (nat (popSize opts)) traderConfig opts gen 0 rnd n"

section \<open>The simulation engine and the trial task\<close>

text \<open>
  \<open>t.init()\<close>, \<open>t.start()\<close> and \<open>t.stop()\<close> are methods of \<open>TraderWorkerBase\<close>, which is not
  among the sources: they are a parameter of the model. An engine tells, for the number of
  engine calls the task has already made, the method called and the worker as it is, the
  state of \<open>t.trader\<close> after the call and the exception the call ends with, if any. Nothing
  is assumed about it.
\<close>

datatype engine_call = Init | Start | Stop

type_synonym engine = "nat \<Rightarrow> engine_call \<Rightarrow> TraderWorker \<Rightarrow> Trader \<times> error option"

text \<open>The state of a running task: its individual, and the engine calls made so far (a
  record of what happened, which the source does not keep).\<close>

record task_state =
  worker :: TraderWorker
  calls :: "engine_call list"

definition engineCall :: "engine \<Rightarrow> engine_call \<Rightarrow> task_state \<Rightarrow> error \<times> task_state + task_state" where
  "engineCall eng c s =
     (case eng (length (calls s)) c (worker s) of
        (tr, err) \<Rightarrow>
          (let s' = \<lparr> worker = (worker s)\<lparr> trader := tr \<rparr>, calls = calls s @ [c] \<rparr>
           in case err of None \<Rightarrow> Inr s' | Some e \<Rightarrow> Inl (e, s')))"

text \<open>\<open>if (!t.fitnesses) t.fitnesses = []; t.fitnesses.push(f)\<close>: the records pushed so
  far are those of \<open>t.fitnesses\<close>, none when it is \<open>undefined\<close>.\<close>

definition recordsOf :: "TraderWorker \<Rightarrow> Fitness list" where
  "recordsOf t = (case fitnesses t of None \<Rightarrow> [] | Some fs \<Rightarrow> fs)"

definition pushFitness :: "Fitness \<Rightarrow> TraderWorker \<Rightarrow> TraderWorker" where
  "pushFitness f t = t\<lparr> fitnesses := Some (recordsOf t @ [f]) \<rparr>"

text \<open>The record pushed by the \<open>catch\<close> block of the task.\<close>

definition sentinel :: Fitness where
  "sentinel = \<lparr> currentProfit = Num (- 1), percentTradeWin = Num (- 1), sharpeRatio = Num (- 1),
                tradeFrequency = Num (- 1), total = Num (- 1) \<rparr>"

text \<open>
  The \<open>for\<close> loop over \<open>opts.envs\<close> inside the \<open>try\<close> block; \<open>i\<close> is the index of the first
  environment of the list. An exception leaves the loop with the state reached.
\<close>

fun envLoop :: "engine \<Rightarrow> Backtest list \<Rightarrow> nat \<Rightarrow> task_state \<Rightarrow> error \<times> task_state + task_state" where
  "envLoop eng [] i s = Inr s"
| "envLoop eng (e # es) i s =
     (let t = worker s;
          s0 = s\<lparr> worker := t\<lparr> config := (config t)\<lparr> env := (env (config t))\<lparr> backtest := e \<rparr>,
                                                     flush := (i = 0) \<rparr> \<rparr> \<rparr>
      in case engineCall eng Init s0 of
           Inl x \<Rightarrow> Inl x
         | Inr s1 \<Rightarrow>
             (case engineCall eng Start s1 of
                Inl x \<Rightarrow> Inl x
              | Inr s2 \<Rightarrow>
                  (case engineCall eng Stop s2 of
                     Inl x \<Rightarrow> Inl x
                   | Inr s3 \<Rightarrow>
                       envLoop eng es (Suc i)
                         (s3\<lparr> worker := pushFitness (calcFitness (worker s3)) (worker s3) \<rparr>))))"

datatype settled = Fulfilled | Rejected error

text \<open>What a task leaves behind once its promise has settled: the individual, how the
  promise settled, the engine calls made, and the errors the task itself logged.\<close>

record task_result =
  task_worker :: TraderWorker
  task_outcome :: settled
  task_calls :: "engine_call list"
  task_logged :: "error list"

definition runTask :: "engine \<Rightarrow> GeneticOpts \<Rightarrow> TraderWorker \<Rightarrow> task_result" where
  "runTask eng opts t =
     (case (if hasRunned t \<noteq> True then envLoop eng (envs opts) 0 \<lparr> worker = t, calls = [] \<rparr>
            else Inr \<lparr> worker = t, calls = [] \<rparr>) of
        Inr s \<Rightarrow>
          \<lparr> task_worker = (worker s)\<lparr> hasRunned := True \<rparr>, task_outcome = Fulfilled,
            task_calls = calls s, task_logged = [] \<rparr>
      | Inl (err, s) \<Rightarrow>
          (let t1 = pushFitness sentinel (worker s) in
           if status (trader t1) \<noteq> STOP then
             (case eng (length (calls s)) Stop t1 of
                (tr, stop_err) \<Rightarrow>
                  \<lparr> task_worker = t1\<lparr> trader := tr \<rparr>, task_outcome = Rejected err,
                    task_calls = calls s @ [Stop],
                    task_logged = (case stop_err of None \<Rightarrow> [] | Some e \<Rightarrow> [e]) \<rparr>)
           else
             \<lparr> task_worker = t1, task_outcome = Rejected err, task_calls = calls s,
               task_logged = [] \<rparr>))"

section \<open>One generation\<close>

text \<open>
  The worker pool runs one task per individual, at most \<open>threads\<close> at a time, and
  \<open>onIdle\<close> resolves when every task has settled. Configurations are values here and a task
  reads and writes its own individual only, so what the tasks leave behind does not depend
  on how the pool interleaves them: the generation is run task by task. Individual \<open>i\<close> of
  the generation has the engine \<open>engines i\<close>. The rejection of a task is caught at the pool
  and logged.
\<close>

definition runGeneration :: "(nat \<Rightarrow> engine) \<Rightarrow> GeneticOpts \<Rightarrow> TraderWorker list \<Rightarrow> task_result list" where
  "runGeneration engines opts population =
     map (\<lambda>it. runTask (engines (fst it)) opts (snd it)) (enumerate 0 population)"

definition poolLog :: "task_result list \<Rightarrow> error list" where
  "poolLog results =
     concat (map (\<lambda>r. task_logged r @ (case task_outcome r of Fulfilled \<Rightarrow> [] | Rejected e \<Rightarrow> [e])) results)"

fun emap :: "('a \<Rightarrow> error + 'b) \<Rightarrow> 'a list \<Rightarrow> error + 'b list" where
  "emap f [] = Inr []"
| "emap f (x # xs) = ebind (f x) (\<lambda>y. ebind (emap f xs) (\<lambda>ys. Inr (y # ys)))"

text \<open>\<open>Math.min(...xs)\<close> and \<open>Math.max(...xs)\<close>: NaN as soon as one argument is NaN, the
  infinities for no argument. \<open>mean(...xs)\<close> of mathjs throws for no argument.\<close>

definition jmin :: "number \<Rightarrow> number \<Rightarrow> number" where
  "jmin x y = (if x = NaN \<or> y = NaN then NaN else if jlt y x then y else x)"

definition jmax :: "number \<Rightarrow> number \<Rightarrow> number" where
  "jmax x y = (if x = NaN \<or> y = NaN then NaN else if jlt x y then y else x)"

definition Math_min :: "number list \<Rightarrow> number" where
  "Math_min xs = foldl jmin PosInf xs"

definition Math_max :: "number list \<Rightarrow> number" where
  "Math_max xs = foldl jmax NegInf xs"

definition mean :: "number list \<Rightarrow> error + number" where
  "mean xs = (if xs = [] then Inl MathjsError
              else Inr (jdiv (foldl jadd (Num 0) xs) (Num (real (length xs)))))"

text \<open>The checkpoint written for a generation.\<close>

record Checkpoint =
  result_mean :: number
  result_min :: number
  result_max :: number
  gen_entries :: "(string \<times> Fitness list option \<times> (string \<rightharpoonup> jsval)) list"

text \<open>What follows \<open>await pqueue.onIdle()\<close>: the sort for display, the aggregate fitness
  values, and the checkpoint.\<close>

definition afterIdle :: "TraderWorker list \<Rightarrow> error + TraderWorker list \<times> Checkpoint" where
  "afterIdle population =
     ebind (Array_sort byFitnessDesc population) (\<lambda>g.
     ebind (emap (\<lambda>t. getFitness t ''total'') g) (\<lambda>fits.
     ebind (mean fits) (\<lambda>m.
       Inr (g, \<lparr> result_mean = m, result_min = Math_min fits, result_max = Math_max fits,
                 gen_entries = map (\<lambda>t. (name (config t), fitnesses t, stratOpts (config t))) g \<rparr>))))"

text \<open>
  One turn of the \<open>while (gen < opts.generation)\<close> loop of \<open>Optimizer.genetic\<close>. \<open>prev\<close> is
  the variable \<open>generation\<close> before the turn (\<open>None\<close> in the first turn). A turn that throws
  sends a stop to every individual of the generation at hand and throws the wrapped error;
  the individuals that are sent the stop are what the failure carries.
\<close>

record turn =
  individuals :: "TraderWorker list"
  tasks :: "task_result list"
  checkpoint :: Checkpoint
  logged :: "error list"
  next_draw :: nat

definition geneticTurn ::
  "(nat \<Rightarrow> engine) \<Rightarrow> TraderConfig \<Rightarrow> GeneticOpts \<Rightarrow> int \<Rightarrow> TraderWorker list option \<Rightarrow> random \<Rightarrow> nat
     \<Rightarrow> error \<times> TraderWorker list + turn" where
  "geneticTurn engines traderConfig opts gen prev rnd n =
     (case (case prev of
              None \<Rightarrow> Inr (makeGeneration traderConfig opts gen rnd n)
            | Some g \<Rightarrow> breedNewGeneration traderConfig g opts gen rnd n) of
        Inl e \<Rightarrow> Inl (OptimizationError, case prev of None \<Rightarrow> [] | Some g \<Rightarrow> g)
      | Inr (population, n') \<Rightarrow>
          (let results = runGeneration engines opts population;
               ran = map task_worker results
           in case afterIdle ran of
                Inl e \<Rightarrow> Inl (OptimizationError, ran)
              | Inr (g, cp) \<Rightarrow>
                  Inr \<lparr> individuals = g, tasks = results, checkpoint = cp,
                        logged = poolLog results, next_draw = n' \<rparr>))"

text \<open>The loop itself; the first argument counts the turns that are left, and generation
  \<open>gen\<close> has the engines \<open>engines gen\<close>.\<close>

fun geneticLoop ::
  "nat \<Rightarrow> (int \<Rightarrow> nat \<Rightarrow> engine) \<Rightarrow> TraderConfig \<Rightarrow> GeneticOpts \<Rightarrow> int \<Rightarrow> TraderWorker list option
     \<Rightarrow> random \<Rightarrow> nat \<Rightarrow> error \<times> TraderWorker list + Checkpoint list" where
  "geneticLoop 0 engines traderConfig opts gen prev rnd n = Inr []"
| "geneticLoop (Suc k) engines traderConfig opts gen prev rnd n =
     (case geneticTurn (engines gen) traderConfig opts gen prev rnd n of
        Inl x \<Rightarrow> Inl x
      | Inr r \<Rightarrow>
          (case geneticLoop k engines traderConfig opts (gen + 1) (Some (individuals r)) rnd (next_draw r) of
             Inl x \<Rightarrow> Inl x
           | Inr cps \<Rightarrow> Inr (checkpoint r # cps)))"

definition genetic ::
  "(int \<Rightarrow> nat \<Rightarrow> engine) \<Rightarrow> TraderConfig \<Rightarrow> GeneticOpts \<Rightarrow> random
     \<Rightarrow> error \<times> TraderWorker list + Checkpoint list" where
  "genetic engines trader_cfg opts rnd =
     geneticLoop (nat (generation opts)) engines trader_cfg opts 0 None rnd 0"

section \<open>Auxiliary notions\<close>

text \<open>What a pass of the loop keeps: the state \<open>s'\<close> continues \<open>s\<close> with the records
  \<open>recs\<close> and the calls \<open>cs\<close>.\<close>

definition continues :: "task_state \<Rightarrow> Fitness list \<Rightarrow> engine_call list \<Rightarrow> task_state \<Rightarrow> bool" where
  "continues s recs cs s' \<longleftrightarrow>
     recordsOf (worker s') = recordsOf (worker s) @ recs \<and> sentinel \<notin> set recs
     \<and> (recs \<noteq> [] \<longrightarrow> fitnesses (worker s') \<noteq> None)
     \<and> (recs = [] \<longrightarrow> fitnesses (worker s') = fitnesses (worker s))
     \<and> hasRunned (worker s') = hasRunned (worker s)
     \<and> stratOpts (config (worker s')) = stratOpts (config (worker s))
     \<and> name (config (worker s')) = name (config (worker s))
     \<and> aggTimes (env (config (worker s'))) = aggTimes (env (config (worker s)))
     \<and> candleSetPlugins (env (config (worker s'))) = candleSetPlugins (env (config (worker s)))
     \<and> calls s' = calls s @ cs"

text \<open>An individual marked as run has records: what the scheduler relies on when it skips
  an individual.\<close>

definition coherent :: "TraderWorker \<Rightarrow> bool" where
  "coherent t \<longleftrightarrow> (hasRunned t \<longrightarrow> recordsOf t \<noteq> [])"

text \<open>
  For the order that the ranking produces: a key that orders the numbers other than NaN as
  \<open><\<close> does (the arc tangent is strictly increasing and stays inside \<open>(-2, 2)\<close>), the key of
  an individual for a descending sort by aggregate total fitness, and the test of the
  rebuild, \<open>getFitness(indiv) - getFitness(prev) === 0\<close>.
\<close>

fun numKey :: "number \<Rightarrow> real" where
  "numKey (Num r) = arctan r"
| "numKey PosInf = 2"
| "numKey NegInf = - 2"
| "numKey NaN = 0"

definition fitnessKey :: "TraderWorker \<Rightarrow> real" where
  "fitnessKey t = (case getFitness t ''total'' of Inl e \<Rightarrow> 0 | Inr v \<Rightarrow> - numKey v)"

definition comparable :: "TraderWorker \<Rightarrow> bool" where
  "comparable t = (case getFitness t ''total'' of Inl e \<Rightarrow> False | Inr v \<Rightarrow> v \<noteq> NaN)"

definition sameFitness :: "TraderWorker \<Rightarrow> TraderWorker \<Rightarrow> bool" where
  "sameFitness indiv prev =
     (case (getFitness indiv ''total'', getFitness prev ''total'') of
        (Inr fi, Inr fp) \<Rightarrow> jeq (jsub fi fp) (Num 0)
      | _ \<Rightarrow> False)"

text \<open>The individuals that the rebuild inserts at the cursor, and those it appends.\<close>

fun fronts :: "TraderWorker \<Rightarrow> TraderWorker list \<Rightarrow> TraderWorker list" where
  "fronts prev [] = []"
| "fronts prev (x # xs) = (if sameFitness x prev then fronts x xs else x # fronts x xs)"

fun backs :: "TraderWorker \<Rightarrow> TraderWorker list \<Rightarrow> TraderWorker list" where
  "backs prev [] = []"
| "backs prev (x # xs) = (if sameFitness x prev then x # backs x xs else backs x xs)"

text \<open>The environment of a worker's configuration has candle aggregation and candle-set
  plugins switched off.\<close>

definition aggregation_off :: "TraderWorker \<Rightarrow> bool" where
  "aggregation_off t \<longleftrightarrow> aggTimes (env (config t)) = [] \<and> candleSetPlugins (env (config t)) = []"

text \<open>A newly constructed individual: not run, no records.\<close>

definition fresh :: "TraderWorker \<Rightarrow> bool" where
  "fresh t \<longleftrightarrow> \<not> hasRunned t \<and> fitnesses t = None"

text \<open>
  What the spec asks of the value of a gene: an element of the list for a categorical
  gene, otherwise a real number in \<open>[min, max]\<close> that is whole when the gene is an integer
  gene. A genome is in order for a list of genes when it holds such a value for each of
  them. A gene itself is well formed when its list is not empty or, without a list, its
  range is not empty and has whole bounds if the gene is an integer gene.
\<close>

definition gene_ok :: "Gene \<Rightarrow> jsval \<Rightarrow> bool" where
  "gene_ok g v =
     (case list g of
        Some l \<Rightarrow> (case v of JStr s \<Rightarrow> s \<in> set l | _ \<Rightarrow> False)
      | None \<Rightarrow>
          (case v of
             JNum x \<Rightarrow>
               (case x of
                  Num r \<Rightarrow> min_gene g \<le> r \<and> r \<le> max_gene g \<and> (integer g \<longrightarrow> r = of_int \<lfloor>r\<rfloor>)
                | _ \<Rightarrow> False)
           | _ \<Rightarrow> False))"

definition genome_ok :: "Gene list \<Rightarrow> (string \<rightharpoonup> jsval) \<Rightarrow> bool" where
  "genome_ok gs m = list_all (\<lambda>g. case m (key g) of None \<Rightarrow> False | Some v \<Rightarrow> gene_ok g v) gs"

definition wf_gene :: "Gene \<Rightarrow> bool" where
  "wf_gene g =
     (case list g of
        Some l \<Rightarrow> l \<noteq> []
      | None \<Rightarrow> min_gene g \<le> max_gene g
                \<and> (integer g \<longrightarrow> min_gene g = of_int \<lfloor>min_gene g\<rfloor> \<and> max_gene g = of_int \<lfloor>max_gene g\<rfloor>))"

text \<open>
  Crossover as the spec describes it, for comparison with the source. A draw \<open>r\<close> from
  \<open>[0, 1)\<close> decides an event of probability \<open>p\<close> by \<open>r < p\<close> (or \<open>r \<le> p\<close>, as the source
  tests the mutation rate). \<open>spec_sample\<close> is the operation \<open>sample(gene)\<close> of the spec's
  section 4.1.
\<close>

definition spec_sample :: "Gene \<Rightarrow> real \<Rightarrow> jsval" where
  "spec_sample g r =
     (case list g of
        Some l \<Rightarrow> listValue l r
      | None \<Rightarrow> JNum (Num (randomBetween (min_gene g) (max_gene g) (integer g) r)))"

text \<open>Section 4.4, first half: start from parent B's genome; for each gene, with probability
  0.5, take parent A's value instead, a categorical gene being sampled from its list.\<close>

fun spec_cross ::
  "random \<Rightarrow> (string \<rightharpoonup> jsval) \<Rightarrow> Gene list \<Rightarrow> (string \<rightharpoonup> jsval) \<Rightarrow> nat \<Rightarrow> (string \<rightharpoonup> jsval) \<times> nat" where
  "spec_cross rnd genomeA [] child n = (child, n)"
| "spec_cross rnd genomeA (g # gs) child n =
     (if rnd n < 1 / 2 then
        (case list g of
           Some l \<Rightarrow> spec_cross rnd genomeA gs (child(key g \<mapsto> spec_sample g (rnd (n + 1)))) (n + 2)
         | None \<Rightarrow> spec_cross rnd genomeA gs (child(key g \<mapsto> valueOf (genomeA (key g)))) (n + 1))
      else spec_cross rnd genomeA gs child (n + 1))"

text \<open>The mutation pass of section 4.5, applied to a genome: the loop of \<open>mutate\<close> with
  that genome as the parent's.\<close>

definition spec_mutation_pass ::
  "random \<Rightarrow> real \<Rightarrow> Gene list \<Rightarrow> (string \<rightharpoonup> jsval) \<Rightarrow> nat \<Rightarrow> (string \<rightharpoonup> jsval) \<times> nat" where
  "spec_mutation_pass rnd rate gs child n = fold (mutateGene rnd rate child) gs (child, n)"

text \<open>Section 4.4 as a whole, as the claim reads it: with probability 0.25 the mutation pass
  of section 4.5 is applied to the child.\<close>

definition spec_crossover ::
  "string \<Rightarrow> TraderWorker \<Rightarrow> TraderWorker \<Rightarrow> GeneticOpts \<Rightarrow> random \<Rightarrow> nat \<Rightarrow> TraderWorker \<times> nat" where
  "spec_crossover nm traderA traderB opts rnd n =
     (case spec_cross rnd (stratOpts (config traderA)) (genes opts) (stratOpts (config traderB)) n of
        (child, n1) \<Rightarrow>
          (case (if rnd n1 < 1 / 4 then spec_mutation_pass rnd (mutationRate opts) (genes opts) child (n1 + 1)
                 else (child, n1 + 1)) of
             (child', n2) \<Rightarrow>
               (createTraderWorker (trader_config (trader traderA)) nm child' (silent opts), n2)))"

text \<open>The pass that the source applies instead: each gene, with probability
  \<open>mutationRate\<close>, is sampled afresh as in section 4.1, whatever its value was.\<close>

fun resample_pass ::
  "random \<Rightarrow> real \<Rightarrow> Gene list \<Rightarrow> (string \<rightharpoonup> jsval) \<Rightarrow> nat \<Rightarrow> (string \<rightharpoonup> jsval) \<times> nat" where
  "resample_pass rnd rate [] child n = (child, n)"
| "resample_pass rnd rate (g # gs) child n =
     (if rnd n \<le> rate
      then resample_pass rnd rate gs (child(key g \<mapsto> spec_sample g (rnd (n + 1)))) (n + 2)
      else resample_pass rnd rate gs child (n + 1))"

definition amended_crossover ::
  "string \<Rightarrow> TraderWorker \<Rightarrow> TraderWorker \<Rightarrow> GeneticOpts \<Rightarrow> random \<Rightarrow> nat \<Rightarrow> TraderWorker \<times> nat" where
  "amended_crossover nm traderA traderB opts rnd n =
     (case spec_cross rnd (stratOpts (config traderA)) (genes opts) (stratOpts (config traderB)) n of
        (child, n1) \<Rightarrow>
          (case (if rnd n1 < 1 / 4 then resample_pass rnd (mutationRate opts) (genes opts) child (n1 + 1)
                 else (child, n1 + 1)) of
             (child', n2) \<Rightarrow>
               (createTraderWorker (trader_config (trader traderA)) nm child' (silent opts), n2)))"

section \<open>Concrete inputs\<close>

text \<open>A configuration with a four-week environment, and a worker that has just finished a
  trial with two trades of 0.5 percent profit each.\<close>

definition fourWeeks :: Backtest where
  "fourWeeks = \<lparr> start = Num 0, stop = Num (1000 * 60 * 60 * 24 * 28) \<rparr>"

definition baseConfig :: TraderConfig where
  "baseConfig =
     \<lparr> name = ''run'', stratOpts = [''x'' \<mapsto> JNum (Num 5)],
       env = \<lparr> backtest = fourWeeks, aggTimes = [''15m''], candleSetPlugins = [''plugin''] \<rparr>,
       flush = False \<rparr>"

definition twoEqualTrades :: TraderWorker where
  "twoEqualTrades =
     (newTraderWorker baseConfig True)
       \<lparr> trader := \<lparr> trader_config = baseConfig, status = STOP,
                     indicators_currentProfit = Some (Num 0.01),
                     tradeHistory = Some [\<lparr> orderProfit = Num 0.005 \<rparr>, \<lparr> orderProfit = Num 0.005 \<rparr>] \<rparr> \<rparr>"

text \<open>An engine whose calls all succeed and leave a portfolio with one trade.\<close>

definition okEngine :: engine where
  "okEngine k c w =
     (case c of
        Init \<Rightarrow> ((trader w)\<lparr> status := RUNNING \<rparr>, None)
      | Start \<Rightarrow> ((trader w)\<lparr> indicators_currentProfit := Some (Num 0.1),
                                tradeHistory := Some [\<lparr> orderProfit = Num 0.01 \<rparr>] \<rparr>, None)
      | Stop \<Rightarrow> ((trader w)\<lparr> status := STOP \<rparr>, None))"

text \<open>An engine that throws in its eighth call (the \<open>start\<close> of the third environment),
  with the engine running.\<close>

definition failThirdEnv :: engine where
  "failThirdEnv k c w =
     (if k = 7 then ((trader w)\<lparr> status := RUNNING \<rparr>, Some (EngineError ''boom'')) else okEngine k c w)"

definition threeEnvs :: GeneticOpts where
  "threeEnvs =
     \<lparr> silent = True, threads = 2, generation = 2, popSize = 4, elitism = 1, mutationRate = 0.5,
       envs = [fourWeeks, fourWeeks, fourWeeks],
       genes = [\<lparr> key = ''x'', min_gene = 0, max_gene = 10, integer = True, list = None \<rparr>] \<rparr>"

definition firstWorker :: TraderWorker where
  "firstWorker = createTraderWorker baseConfig ''run-gen0-ind0'' (stratOpts baseConfig) True"

text \<open>An individual that has run, with one record of the given total; and a generation of
  four with the totals 3, 5, 5 and 1.\<close>

definition scored :: "string \<Rightarrow> real \<Rightarrow> TraderWorker" where
  "scored nm x =
     (createTraderWorker baseConfig nm (stratOpts baseConfig) True)
       \<lparr> fitnesses := Some [\<lparr> currentProfit = Num x, percentTradeWin = Num 0, sharpeRatio = Num 0,
                               tradeFrequency = Num 0, total = Num x \<rparr>],
         hasRunned := True \<rparr>"

definition fourScored :: "TraderWorker list" where
  "fourScored = [scored ''a'' 3, scored ''b'' 5, scored ''c'' 5, scored ''d'' 1]"

text \<open>An individual whose one record is that of the trial with two trades of 0.5 percent
  profit, and a generation of four with the totals 2, 2, NaN and 1.\<close>

definition unclamped :: "string \<Rightarrow> TraderWorker" where
  "unclamped nm =
     (createTraderWorker baseConfig nm (stratOpts baseConfig) True)
       \<lparr> fitnesses := Some [calcFitness twoEqualTrades], hasRunned := True \<rparr>"

definition withNaN :: "TraderWorker list" where
  "withNaN = [scored ''a'' 2, scored ''b'' 2, unclamped ''c'', scored ''d'' 1]"

text \<open>Five fresh individuals, one environment, and engines of which only that of individual
  3 throws (in its first \<open>start\<close>, with the engine running).\<close>

definition fiveWorkers :: "TraderWorker list" where
  "fiveWorkers =
     map (\<lambda>i. createTraderWorker baseConfig (indivName baseConfig 0 i) (stratOpts baseConfig) True)
       [0, 1, 2, 3, 4]"

definition oneEnv :: GeneticOpts where
  "oneEnv = threeEnvs\<lparr> envs := [fourWeeks], popSize := 5 \<rparr>"

definition failStart :: engine where
  "failStart k c w =
     (if c = Start then ((trader w)\<lparr> status := RUNNING \<rparr>, Some (EngineError ''boom''))
      else okEngine k c w)"

definition thirdFails :: "nat \<Rightarrow> engine" where
  "thirdFails i = (if i = 3 then failStart else okEngine)"

text \<open>A run of one individual whose only trial failed: the baseline individual after a
  task under the engine \<open>failStart\<close>. It is the whole generation, so it is also the elite.\<close>

definition failedOnce :: TraderWorker where
  "failedOnce = task_worker (runTask failStart oneEnv firstWorker)"

definition oneElite :: GeneticOpts where
  "oneElite = oneEnv\<lparr> popSize := 1, elitism := 1 \<rparr>"

text \<open>Options that break both rules of a valid generation configuration: no gene, and an
  elitism that equals the population size.\<close>

definition invalidOpts :: GeneticOpts where
  "invalidOpts =
     \<lparr> silent = True, threads = 2, generation = 2, popSize = 2, elitism = 2, mutationRate = 0.5,
       envs = [fourWeeks], genes = [] \<rparr>"

text \<open>A baseline whose \<open>x\<close> lies outside the range \<open>[0, 10]\<close> of the gene of \<open>threeEnvs\<close>,
  and the individual made from it.\<close>

definition outsideConfig :: TraderConfig where
  "outsideConfig = baseConfig\<lparr> stratOpts := [''x'' \<mapsto> JNum (Num 50)] \<rparr>"

definition outsider :: TraderWorker where
  "outsider = createTraderWorker outsideConfig ''run-gen0-ind0'' (stratOpts outsideConfig) True"

text \<open>Draws for which the child keeps parent B's gene and is then picked for the extra
  pass, in which its gene is picked for a change.\<close>

definition crossDraws :: random where
  "crossDraws n = (if n = 0 then 9 / 10 else if n = 1 then 1 / 10 else if n = 2 then 1 / 5 else 19 / 20)"

section \<open>Properties of the fitness evaluation\<close>

lemma clampSharpe_cases:
  "clampSharpe s = (case s of Num r \<Rightarrow> Num (if r < 0 then 0 else if 4 < r then 4 else r)
                    | PosInf \<Rightarrow> Num 4 | NegInf \<Rightarrow> Num 0 | NaN \<Rightarrow> NaN)"
  by (cases s) (simp_all add: clampSharpe_def jgt_def)

lemma clampSharpe_range:
  "s \<noteq> NaN \<Longrightarrow> \<exists>r. clampSharpe s = Num r \<and> 0 \<le> r \<and> r \<le> 4"
  by (cases s) (simp_all add: clampSharpe_cases)

lemma calcFitness_total:
  "total (calcFitness t) =
     jadd (jadd (jadd (currentProfit (calcFitness t)) (jmul (Num 0.5) (percentTradeWin (calcFitness t))))
                (jmul (Num 0.5) (tradeFrequency (calcFitness t))))
          (jdiv (sharpeRatio (calcFitness t)) (Num 4))"
  by (simp add: calcFitness_def Let_def)

lemma calcFitness_currentProfit:
  "currentProfit (calcFitness t) = penaliseProfit (indicators_currentProfit (trader t))"
  by (simp add: calcFitness_def Let_def)

text \<open>
  C1. The composite \<open>total\<close> is computed from the four components as stated
  (\<open>calcFitness_total\<close>), and the Sharpe ratio is brought into \<open>[0, 4]\<close> whenever the raw
  ratio is a number or an infinity (\<open>clampSharpe_range\<close>). The clamp lets NaN through,
  though: after a trial with two trades of exactly 0.5 percent profit each the mean is
  0.005 and the deviation is 0, the raw ratio is \<open>0 / 0\<close>, and the record returned has
  \<open>sharpeRatio\<close> and \<open>total\<close> NaN instead of a Sharpe ratio in \<open>[0, 4]\<close>.
\<close>

theorem calcFitness_sharpe_nan:
  "calcSharpeRatio [\<lparr> orderProfit = Num 0.005 \<rparr>, \<lparr> orderProfit = Num 0.005 \<rparr>] = NaN
   \<and> sharpeRatio (calcFitness twoEqualTrades) = NaN
   \<and> total (calcFitness twoEqualTrades) = NaN"
  by (simp add: calcFitness_def twoEqualTrades_def newTraderWorker_def baseConfig_def fourWeeks_def
      calcSharpeRatio_def penaliseProfit_def clampSharpe_def jeq_def jsub_def jgt_def
      signed_inf_def daysBetween_def Let_def)

section \<open>Properties of the trial task\<close>

lemma engineCall_Inr:
  "engineCall eng c s = Inr s' \<Longrightarrow>
     \<exists>tr. worker s' = (worker s)\<lparr> trader := tr \<rparr> \<and> calls s' = calls s @ [c]"
  by (auto simp: engineCall_def Let_def split: prod.splits option.splits)

lemma engineCall_Inl:
  "engineCall eng c s = Inl (e, s') \<Longrightarrow>
     \<exists>tr. worker s' = (worker s)\<lparr> trader := tr \<rparr> \<and> calls s' = calls s @ [c]"
  by (auto simp: engineCall_def Let_def split: prod.splits option.splits)

lemma recordsOf_trader [simp]: "recordsOf (t\<lparr> trader := tr \<rparr>) = recordsOf t"
  by (simp add: recordsOf_def)

lemma recordsOf_config [simp]: "recordsOf (t\<lparr> config := c \<rparr>) = recordsOf t"
  by (simp add: recordsOf_def)

lemma recordsOf_pushFitness [simp]: "recordsOf (pushFitness f t) = recordsOf t @ [f]"
  by (simp add: recordsOf_def pushFitness_def)

lemma recordsOf_hasRunned [simp]: "recordsOf (t\<lparr> hasRunned := b \<rparr>) = recordsOf t"
  by (simp add: recordsOf_def)

lemma hasRunned_pushFitness [simp]: "hasRunned (pushFitness f t) = hasRunned t"
  by (simp add: pushFitness_def)

lemma config_pushFitness [simp]: "config (pushFitness f t) = config t"
  by (simp add: pushFitness_def)

lemma trader_pushFitness [simp]: "trader (pushFitness f t) = trader t"
  by (simp add: pushFitness_def)

lemma fitnesses_pushFitness [simp]: "fitnesses (pushFitness f t) = Some (recordsOf t @ [f])"
  by (simp add: pushFitness_def)

lemma fitnesses_recordsOf: "fitnesses t = Some fs \<Longrightarrow> recordsOf t = fs"
  by (simp add: recordsOf_def)

lemma ratio_not_minus_one: "real a / real b \<noteq> - 1"
proof -
  have "0 \<le> real a / real b" by simp
  then show ?thesis by linarith
qed

lemma calcFitness_not_sentinel: "calcFitness w \<noteq> sentinel"
proof -
  have "percentTradeWin (calcFitness w) \<noteq> Num (- 1)"
    by (simp add: calcFitness_def Let_def ratio_not_minus_one)
  then show ?thesis by (auto simp: sentinel_def)
qed

lemma envLoop_Inr:
  "envLoop eng es i s = Inr s' \<Longrightarrow>
     \<exists>recs. length recs = length es
        \<and> continues s recs (concat (replicate (length es) [Init, Start, Stop])) s'"
proof (induction es arbitrary: i s)
  case Nil
  then show ?case by (simp add: continues_def)
next
  case (Cons e es)
  from Cons.prems obtain s1 s2 s3 where
    c1: "engineCall eng Init (s\<lparr> worker := (worker s)\<lparr> config := (config (worker s))\<lparr> env := (env (config (worker s)))\<lparr> backtest := e \<rparr>, flush := (i = 0) \<rparr> \<rparr> \<rparr>) = Inr s1"
    and c2: "engineCall eng Start s1 = Inr s2"
    and c3: "engineCall eng Stop s2 = Inr s3"
    and rest: "envLoop eng es (Suc i) (s3\<lparr> worker := pushFitness (calcFitness (worker s3)) (worker s3) \<rparr>) = Inr s'"
    by (auto simp: Let_def split: sum.splits)
  from Cons.IH[OF rest] obtain recs where
    d: "length recs = length es"
    "continues (s3\<lparr> worker := pushFitness (calcFitness (worker s3)) (worker s3) \<rparr>) recs
        (concat (replicate (length es) [Init, Start, Stop])) s'"
    by blast
  from engineCall_Inr[OF c1] engineCall_Inr[OF c2] engineCall_Inr[OF c3]
  have w3: "recordsOf (worker s3) = recordsOf (worker s)"
    "hasRunned (worker s3) = hasRunned (worker s)"
    "stratOpts (config (worker s3)) = stratOpts (config (worker s))"
    "name (config (worker s3)) = name (config (worker s))"
    "aggTimes (env (config (worker s3))) = aggTimes (env (config (worker s)))"
    "candleSetPlugins (env (config (worker s3))) = candleSetPlugins (env (config (worker s)))"
    "calls s3 = calls s @ [Init, Start, Stop]"
    by auto
  have "continues s (calcFitness (worker s3) # recs)
          (concat (replicate (length (e # es)) [Init, Start, Stop])) s'"
    using d(2) w3 calcFitness_not_sentinel[of "worker s3"]
    by (auto simp: continues_def)
  with d(1) show ?case
    by (intro exI[of _ "calcFitness (worker s3) # recs"]) simp
qed

lemma envLoop_Inl:
  "envLoop eng es i s = Inl (err, s') \<Longrightarrow>
     \<exists>recs cs. length recs < length es \<and> continues s recs cs s' \<and> cs \<noteq> []"
proof (induction es arbitrary: i s)
  case Nil
  then show ?case by simp
next
  case (Cons e es)
  let ?s0 = "s\<lparr> worker := (worker s)\<lparr> config := (config (worker s))\<lparr> env := (env (config (worker s)))\<lparr> backtest := e \<rparr>, flush := (i = 0) \<rparr> \<rparr> \<rparr>"
  consider
    (f1) "engineCall eng Init ?s0 = Inl (err, s')"
  | (f2) s1 where "engineCall eng Init ?s0 = Inr s1" "engineCall eng Start s1 = Inl (err, s')"
  | (f3) s1 s2 where "engineCall eng Init ?s0 = Inr s1" "engineCall eng Start s1 = Inr s2"
      "engineCall eng Stop s2 = Inl (err, s')"
  | (ok) s1 s2 s3 where "engineCall eng Init ?s0 = Inr s1" "engineCall eng Start s1 = Inr s2"
      "engineCall eng Stop s2 = Inr s3"
      "envLoop eng es (Suc i) (s3\<lparr> worker := pushFitness (calcFitness (worker s3)) (worker s3) \<rparr>) = Inl (err, s')"
    using Cons.prems by (auto simp: Let_def split: sum.splits)
  then show ?case
  proof cases
    case f1
    from engineCall_Inl[OF f1] have "continues s [] [Init] s'"
      by (auto simp: continues_def recordsOf_def)
    then show ?thesis by (intro exI[of _ "[]"] exI[of _ "[Init]"]) simp
  next
    case f2
    from engineCall_Inr[OF f2(1)] engineCall_Inl[OF f2(2)] have "continues s [] [Init, Start] s'"
      by (auto simp: continues_def recordsOf_def)
    then show ?thesis by (intro exI[of _ "[]"] exI[of _ "[Init, Start]"]) simp
  next
    case f3
    from engineCall_Inr[OF f3(1)] engineCall_Inr[OF f3(2)] engineCall_Inl[OF f3(3)]
    have "continues s [] [Init, Start, Stop] s'"
      by (auto simp: continues_def recordsOf_def)
    then show ?thesis by (intro exI[of _ "[]"] exI[of _ "[Init, Start, Stop]"]) simp
  next
    case ok
    from Cons.IH[OF ok(4)] obtain recs cs where
      d: "length recs < length es"
      "continues (s3\<lparr> worker := pushFitness (calcFitness (worker s3)) (worker s3) \<rparr>) recs cs s'"
      by blast
    from engineCall_Inr[OF ok(1)] engineCall_Inr[OF ok(2)] engineCall_Inr[OF ok(3)]
    have w3: "recordsOf (worker s3) = recordsOf (worker s)"
      "hasRunned (worker s3) = hasRunned (worker s)"
      "stratOpts (config (worker s3)) = stratOpts (config (worker s))"
      "name (config (worker s3)) = name (config (worker s))"
    "aggTimes (env (config (worker s3))) = aggTimes (env (config (worker s)))"
    "candleSetPlugins (env (config (worker s3))) = candleSetPlugins (env (config (worker s)))"
      "calls s3 = calls s @ [Init, Start, Stop]"
      by auto
    have "continues s (calcFitness (worker s3) # recs) ([Init, Start, Stop] @ cs) s'"
      using d(2) w3 calcFitness_not_sentinel[of "worker s3"]
      by (auto simp: continues_def)
    with d(1) show ?thesis
      by (intro exI[of _ "calcFitness (worker s3) # recs"] exI[of _ "[Init, Start, Stop] @ cs"]) simp
  qed
qed

lemma hasRunned_True_id: "hasRunned t \<Longrightarrow> t\<lparr> hasRunned := True \<rparr> = t"
  by (cases t) simp

lemma trader_id: "t\<lparr> trader := trader t \<rparr> = t"
  by (cases t) simp

lemma runTask_skip:
  "hasRunned t \<Longrightarrow>
     runTask eng opts t = \<lparr> task_worker = t, task_outcome = Fulfilled, task_calls = [], task_logged = [] \<rparr>"
  by (simp add: runTask_def hasRunned_True_id)

lemma runTask_completed:
  assumes "\<not> hasRunned t" "envLoop eng (envs opts) 0 \<lparr> worker = t, calls = [] \<rparr> = Inr s"
  shows "runTask eng opts t =
           \<lparr> task_worker = (worker s)\<lparr> hasRunned := True \<rparr>, task_outcome = Fulfilled,
             task_calls = calls s, task_logged = [] \<rparr>"
  using assms by (simp add: runTask_def)

lemma runTask_thrown:
  assumes "\<not> hasRunned t" "envLoop eng (envs opts) 0 \<lparr> worker = t, calls = [] \<rparr> = Inl (err, s)"
  shows "task_outcome (runTask eng opts t) = Rejected err"
    and "\<exists>tr. task_worker (runTask eng opts t) = (pushFitness sentinel (worker s))\<lparr> trader := tr \<rparr>"
    and "task_calls (runTask eng opts t) =
           (if status (trader (worker s)) \<noteq> STOP then calls s @ [Stop] else calls s)"
    and "task_logged (runTask eng opts t) =
           (if status (trader (worker s)) \<noteq> STOP
            then (case snd (eng (length (calls s)) Stop (pushFitness sentinel (worker s))) of
                    None \<Rightarrow> [] | Some e \<Rightarrow> [e])
            else [])"
proof -
  show "task_outcome (runTask eng opts t) = Rejected err"
    using assms by (simp add: runTask_def Let_def split: prod.splits)
  show "\<exists>tr. task_worker (runTask eng opts t) = (pushFitness sentinel (worker s))\<lparr> trader := tr \<rparr>"
  proof (cases "status (trader (worker s)) = STOP")
    case True
    with assms have "task_worker (runTask eng opts t) = pushFitness sentinel (worker s)"
      by (simp add: runTask_def Let_def)
    then show ?thesis
      using trader_id[of "pushFitness sentinel (worker s)"] by metis
  next
    case False
    with assms show ?thesis
      by (auto simp: runTask_def Let_def split: prod.splits)
  qed
  show "task_calls (runTask eng opts t) =
           (if status (trader (worker s)) \<noteq> STOP then calls s @ [Stop] else calls s)"
    using assms by (simp add: runTask_def Let_def split: prod.splits)
  show "task_logged (runTask eng opts t) =
           (if status (trader (worker s)) \<noteq> STOP
            then (case snd (eng (length (calls s)) Stop (pushFitness sentinel (worker s))) of
                    None \<Rightarrow> [] | Some e \<Rightarrow> [e])
            else [])"
    using assms by (simp add: runTask_def Let_def split: prod.splits)
qed

lemma runTask_rejected_thrown:
  assumes "task_outcome (runTask eng opts t) = Rejected err"
  shows "\<not> hasRunned t \<and> (\<exists>s. envLoop eng (envs opts) 0 \<lparr> worker = t, calls = [] \<rparr> = Inl (err, s))"
  using assms
  by (auto simp: runTask_def Let_def split: if_splits sum.splits prod.splits)

lemma runTask_fulfilled_cases:
  assumes "task_outcome (runTask eng opts t) = Fulfilled"
  shows "hasRunned t \<or> (\<exists>s. envLoop eng (envs opts) 0 \<lparr> worker = t, calls = [] \<rparr> = Inr s)"
  using assms
  by (auto simp: runTask_def Let_def split: if_splits sum.splits prod.splits)

text \<open>With at least one environment, a task leaves its individual with records.\<close>

lemma runTask_records:
  assumes "envs opts \<noteq> []" "coherent t"
  shows "\<exists>fs. fitnesses (task_worker (runTask eng opts t)) = Some fs \<and> fs \<noteq> []"
proof (cases "hasRunned t")
  case True
  with assms(2) have "recordsOf t \<noteq> []" by (simp add: coherent_def)
  then have "\<exists>fs. fitnesses t = Some fs \<and> fs \<noteq> []"
    by (auto simp: recordsOf_def split: option.splits)
  with True show ?thesis by (simp add: runTask_skip)
next
  case False
  show ?thesis
  proof (cases "envLoop eng (envs opts) 0 \<lparr> worker = t, calls = [] \<rparr>")
    case (Inl x)
    obtain err s where x: "x = (err, s)" by (cases x)
    from runTask_thrown(2)[OF False Inl[unfolded x]] show ?thesis by auto
  next
    case (Inr s)
    from envLoop_Inr[OF Inr] obtain recs where
      r: "length recs = length (envs opts)"
      "continues \<lparr> worker = t, calls = [] \<rparr> recs (concat (replicate (length (envs opts)) [Init, Start, Stop])) s"
      by blast
    from r(1) assms(1) have "recs \<noteq> []" by auto
    with r(2) have "\<exists>fs. fitnesses (worker s) = Some fs \<and> fs \<noteq> []"
      by (auto simp: continues_def recordsOf_def split: option.splits)
    then show ?thesis by (simp add: runTask_completed[OF False Inr])
  qed
qed

lemma runTask_coherent:
  assumes "envs opts \<noteq> []" "coherent t"
  shows "coherent (task_worker (runTask eng opts t))"
  using runTask_records[OF assms, of eng] by (auto simp: coherent_def recordsOf_def)

lemma runTask_appends:
  assumes "\<not> hasRunned t" "envs opts \<noteq> []"
  shows "\<exists>recs. recs \<noteq> [] \<and> recordsOf (task_worker (runTask eng opts t)) = recordsOf t @ recs"
proof (cases "envLoop eng (envs opts) 0 \<lparr> worker = t, calls = [] \<rparr>")
  case (Inl x)
  obtain err s where x: "x = (err, s)" by (cases x)
  from envLoop_Inl[OF Inl[unfolded x]] obtain recs cs where
    "continues \<lparr> worker = t, calls = [] \<rparr> recs cs s" by blast
  then have "recordsOf (worker s) = recordsOf t @ recs" by (simp add: continues_def)
  with runTask_thrown(2)[OF assms(1) Inl[unfolded x]]
  have "recordsOf (task_worker (runTask eng opts t)) = recordsOf t @ (recs @ [sentinel])"
    by auto
  then show ?thesis by blast
next
  case (Inr s)
  from envLoop_Inr[OF Inr] obtain recs where
    r: "length recs = length (envs opts)"
    "continues \<lparr> worker = t, calls = [] \<rparr> recs (concat (replicate (length (envs opts)) [Init, Start, Stop])) s"
    by blast
  from r(1) assms(2) have "recs \<noteq> []" by auto
  moreover from r(2) have "recordsOf (task_worker (runTask eng opts t)) = recordsOf t @ recs"
    by (simp add: runTask_completed[OF assms(1) Inr] continues_def)
  ultimately show ?thesis by blast
qed

text \<open>The flag is set by exactly the tasks that are fulfilled, and a task that is fulfilled
  for an individual not yet run has pushed one record per environment.\<close>

lemma hasRunned_iff_fulfilled:
  "hasRunned (task_worker (runTask eng opts t)) \<longleftrightarrow> task_outcome (runTask eng opts t) = Fulfilled"
proof (cases "hasRunned t")
  case True
  then show ?thesis by (simp add: runTask_skip)
next
  case False
  show ?thesis
  proof (cases "envLoop eng (envs opts) 0 \<lparr> worker = t, calls = [] \<rparr>")
    case (Inl x)
    obtain err s where x: "x = (err, s)" by (cases x)
    from envLoop_Inl[OF Inl[unfolded x]] obtain recs cs where
      "continues \<lparr> worker = t, calls = [] \<rparr> recs cs s" by blast
    then have "\<not> hasRunned (worker s)" using False by (simp add: continues_def)
    with runTask_thrown(1,2)[OF False Inl[unfolded x]] show ?thesis by auto
  next
    case (Inr s)
    then show ?thesis by (simp add: runTask_completed[OF False Inr])
  qed
qed

lemma fulfilled_all_environments:
  assumes "\<not> hasRunned t" "task_outcome (runTask eng opts t) = Fulfilled"
  shows "length (recordsOf (task_worker (runTask eng opts t)))
           = length (recordsOf t) + length (envs opts)"
proof -
  from runTask_fulfilled_cases[OF assms(2)] assms(1) obtain s where
    s: "envLoop eng (envs opts) 0 \<lparr> worker = t, calls = [] \<rparr> = Inr s" by blast
  from envLoop_Inr[OF s] obtain recs where
    "length recs = length (envs opts)"
    "continues \<lparr> worker = t, calls = [] \<rparr> recs (concat (replicate (length (envs opts)) [Init, Start, Stop])) s"
    by blast
  then show ?thesis by (simp add: runTask_completed[OF assms(1) s] continues_def)
qed

text \<open>The state in which a failing loop throws continues a run of the loop over the
  environments before the failing one: \<open>k\<close> of them were completed, and the exception
  comes from the first, second or third engine call of the next.\<close>

lemma envLoop_Inl_prefix:
  "envLoop eng es i s = Inl (err, s') \<Longrightarrow>
     \<exists>k sk cs. k < length es \<and> envLoop eng (take k es) i s = Inr sk
        \<and> recordsOf (worker s') = recordsOf (worker sk)
        \<and> calls s' = calls sk @ cs \<and> cs \<in> {[Init], [Init, Start], [Init, Start, Stop]}"
proof (induction es arbitrary: i s)
  case Nil
  then show ?case by simp
next
  case (Cons e es)
  let ?s0 = "s\<lparr> worker := (worker s)\<lparr> config := (config (worker s))\<lparr> env := (env (config (worker s)))\<lparr> backtest := e \<rparr>, flush := (i = 0) \<rparr> \<rparr> \<rparr>"
  consider
    (f1) "engineCall eng Init ?s0 = Inl (err, s')"
  | (f2) s1 where "engineCall eng Init ?s0 = Inr s1" "engineCall eng Start s1 = Inl (err, s')"
  | (f3) s1 s2 where "engineCall eng Init ?s0 = Inr s1" "engineCall eng Start s1 = Inr s2"
      "engineCall eng Stop s2 = Inl (err, s')"
  | (ok) s1 s2 s3 where "engineCall eng Init ?s0 = Inr s1" "engineCall eng Start s1 = Inr s2"
      "engineCall eng Stop s2 = Inr s3"
      "envLoop eng es (Suc i) (s3\<lparr> worker := pushFitness (calcFitness (worker s3)) (worker s3) \<rparr>) = Inl (err, s')"
    using Cons.prems by (auto simp: Let_def split: sum.splits)
  then show ?case
  proof cases
    case f1
    from engineCall_Inl[OF f1] have "recordsOf (worker s') = recordsOf (worker s) \<and> calls s' = calls s @ [Init]"
      by auto
    then show ?thesis by (intro exI[of _ 0] exI[of _ s] exI[of _ "[Init]"]) simp
  next
    case f2
    from engineCall_Inr[OF f2(1)] engineCall_Inl[OF f2(2)]
    have "recordsOf (worker s') = recordsOf (worker s) \<and> calls s' = calls s @ [Init, Start]"
      by auto
    then show ?thesis by (intro exI[of _ 0] exI[of _ s] exI[of _ "[Init, Start]"]) simp
  next
    case f3
    from engineCall_Inr[OF f3(1)] engineCall_Inr[OF f3(2)] engineCall_Inl[OF f3(3)]
    have "recordsOf (worker s') = recordsOf (worker s) \<and> calls s' = calls s @ [Init, Start, Stop]"
      by auto
    then show ?thesis by (intro exI[of _ 0] exI[of _ s] exI[of _ "[Init, Start, Stop]"]) simp
  next
    case ok
    from Cons.IH[OF ok(4)] obtain k sk cs where
      d: "k < length es"
      "envLoop eng (take k es) (Suc i) (s3\<lparr> worker := pushFitness (calcFitness (worker s3)) (worker s3) \<rparr>) = Inr sk"
      "recordsOf (worker s') = recordsOf (worker sk)" "calls s' = calls sk @ cs"
      "cs \<in> {[Init], [Init, Start], [Init, Start, Stop]}"
      by blast
    have "envLoop eng (take (Suc k) (e # es)) i s = Inr sk"
      using ok(1,2,3) d(2) by (simp add: Let_def)
    with d show ?thesis
      by (intro exI[of _ "Suc k"] exI[of _ sk] exI[of _ cs]) simp
  qed
qed

text \<open>
  C9. A task that is rejected has completed some number \<open>k\<close> of environments, fewer than there
  are, and thrown in one of the three engine calls of the next one. It leaves its individual
  with the records it had, then the \<open>k\<close> records \<open>recs\<close> of the completed environments (the
  very records that the task pushes when it is given the first \<open>k\<close> environments only, none
  of them the sentinel), then exactly one sentinel, whatever the number of environments
  that were left. \<open>hasRunned\<close> is still false; and when the individual is run again, under
  any engine, further records are appended to these.
\<close>

theorem failed_task_records:
  assumes "task_outcome (runTask eng opts t) = Rejected err"
  shows "(\<exists>k recs cs.
            k < length (envs opts) \<and> length recs = k \<and> sentinel \<notin> set recs
          \<and> task_outcome (runTask eng (opts\<lparr> envs := take k (envs opts) \<rparr>) t) = Fulfilled
          \<and> recordsOf (task_worker (runTask eng (opts\<lparr> envs := take k (envs opts) \<rparr>) t)) = recordsOf t @ recs
          \<and> fitnesses (task_worker (runTask eng opts t)) = Some (recordsOf t @ recs @ [sentinel])
          \<and> cs \<in> {[Init], [Init, Start], [Init, Start, Stop]}
          \<and> take (3 * k + length cs) (task_calls (runTask eng opts t))
              = concat (replicate k [Init, Start, Stop]) @ cs
          \<and> drop (3 * k + length cs) (task_calls (runTask eng opts t)) \<in> {[], [Stop]})
         \<and> \<not> hasRunned t
         \<and> \<not> hasRunned (task_worker (runTask eng opts t))
         \<and> length (recordsOf (task_worker (runTask eng opts t)))
             < length (recordsOf (task_worker (runTask eng' opts (task_worker (runTask eng opts t)))))"
proof -
  from runTask_rejected_thrown[OF assms] obtain s where
    nr: "\<not> hasRunned t" and thr: "envLoop eng (envs opts) 0 \<lparr> worker = t, calls = [] \<rparr> = Inl (err, s)"
    by blast
  from envLoop_Inl_prefix[OF thr] obtain k sk cs where
    p: "k < length (envs opts)" "envLoop eng (take k (envs opts)) 0 \<lparr> worker = t, calls = [] \<rparr> = Inr sk"
    "recordsOf (worker s) = recordsOf (worker sk)" "calls s = calls sk @ cs"
    "cs \<in> {[Init], [Init, Start], [Init, Start, Stop]}"
    by blast
  from envLoop_Inr[OF p(2)] p(1) obtain recs where
    r: "length recs = k"
    "continues \<lparr> worker = t, calls = [] \<rparr> recs (concat (replicate k [Init, Start, Stop])) sk"
    by auto
  from r(2) have rs: "recordsOf (worker sk) = recordsOf t @ recs" "sentinel \<notin> set recs"
    "calls sk = concat (replicate k [Init, Start, Stop])"
    by (simp_all add: continues_def)
  from envLoop_Inl[OF thr] have hs: "hasRunned (worker s) = hasRunned t"
    by (auto simp: continues_def)
  have pre: "envLoop eng (envs (opts\<lparr> envs := take k (envs opts) \<rparr>)) 0 \<lparr> worker = t, calls = [] \<rparr> = Inr sk"
    using p(2) by simp
  have a1: "task_outcome (runTask eng (opts\<lparr> envs := take k (envs opts) \<rparr>) t) = Fulfilled"
    and a2: "recordsOf (task_worker (runTask eng (opts\<lparr> envs := take k (envs opts) \<rparr>) t)) = recordsOf t @ recs"
    using rs(1) by (simp_all add: runTask_completed[OF nr pre])
  from runTask_thrown(2)[OF nr thr] obtain tr where
    w: "task_worker (runTask eng opts t) = (pushFitness sentinel (worker s))\<lparr> trader := tr \<rparr>"
    by blast
  have a3: "fitnesses (task_worker (runTask eng opts t)) = Some (recordsOf t @ recs @ [sentinel])"
    using w rs(1) p(3) by simp
  have lk: "length (concat (replicate k [Init, Start, Stop])) = 3 * k"
    by (induction k) simp_all
  have cl: "task_calls (runTask eng opts t) = (concat (replicate k [Init, Start, Stop]) @ cs)
              @ (if status (trader (worker s)) \<noteq> STOP then [Stop] else [])"
    using runTask_thrown(3)[OF nr thr] p(4) rs(3) by simp
  have a4: "take (3 * k + length cs) (task_calls (runTask eng opts t))
              = concat (replicate k [Init, Start, Stop]) @ cs"
    unfolding cl using lk by simp
  have a5: "drop (3 * k + length cs) (task_calls (runTask eng opts t)) \<in> {[], [Stop]}"
    unfolding cl using lk by simp
  have b: "\<not> hasRunned (task_worker (runTask eng opts t))"
    using w hs nr by simp
  from p(1) have ne: "envs opts \<noteq> []" by auto
  from runTask_appends[OF b ne, of eng'] have c:
    "length (recordsOf (task_worker (runTask eng opts t)))
       < length (recordsOf (task_worker (runTask eng' opts (task_worker (runTask eng opts t)))))"
    by auto
  from p(1) r(1) rs(2) a1 a2 a3 p(5) a4 a5 nr b c show ?thesis by blast
qed

theorem failed_task_records_witness:
  "task_outcome (runTask failThirdEnv threeEnvs firstWorker) = Rejected (EngineError ''boom'')
   \<and> fitnesses (task_worker (runTask failThirdEnv threeEnvs firstWorker))
       = Some [calcFitness (task_worker (runTask okEngine (threeEnvs\<lparr> envs := [fourWeeks] \<rparr>) firstWorker)),
               calcFitness (task_worker (runTask okEngine (threeEnvs\<lparr> envs := [fourWeeks] \<rparr>) firstWorker)),
               sentinel]
   \<and> task_calls (runTask failThirdEnv threeEnvs firstWorker)
       = [Init, Start, Stop, Init, Start, Stop, Init, Start, Stop]
   \<and> (\<exists>k recs cs.
            k < length (envs threeEnvs) \<and> length recs = k \<and> sentinel \<notin> set recs
          \<and> task_outcome (runTask failThirdEnv (threeEnvs\<lparr> envs := take k (envs threeEnvs) \<rparr>) firstWorker) = Fulfilled
          \<and> recordsOf (task_worker (runTask failThirdEnv (threeEnvs\<lparr> envs := take k (envs threeEnvs) \<rparr>) firstWorker))
              = recordsOf firstWorker @ recs
          \<and> fitnesses (task_worker (runTask failThirdEnv threeEnvs firstWorker))
              = Some (recordsOf firstWorker @ recs @ [sentinel])
          \<and> cs \<in> {[Init], [Init, Start], [Init, Start, Stop]}
          \<and> take (3 * k + length cs) (task_calls (runTask failThirdEnv threeEnvs firstWorker))
              = concat (replicate k [Init, Start, Stop]) @ cs
          \<and> drop (3 * k + length cs) (task_calls (runTask failThirdEnv threeEnvs firstWorker)) \<in> {[], [Stop]})
   \<and> \<not> hasRunned (task_worker (runTask failThirdEnv threeEnvs firstWorker))
   \<and> length (recordsOf (task_worker (runTask failThirdEnv threeEnvs firstWorker)))
       < length (recordsOf (task_worker (runTask okEngine threeEnvs
                   (task_worker (runTask failThirdEnv threeEnvs firstWorker)))))"
proof -
  have h: "task_outcome (runTask failThirdEnv threeEnvs firstWorker) = Rejected (EngineError ''boom'')"
    by (simp add: runTask_def failThirdEnv_def okEngine_def threeEnvs_def firstWorker_def
        createTraderWorker_def newTraderWorker_def engineCall_def Let_def)
  have f: "fitnesses (task_worker (runTask failThirdEnv threeEnvs firstWorker))
       = Some [calcFitness (task_worker (runTask okEngine (threeEnvs\<lparr> envs := [fourWeeks] \<rparr>) firstWorker)),
               calcFitness (task_worker (runTask okEngine (threeEnvs\<lparr> envs := [fourWeeks] \<rparr>) firstWorker)),
               sentinel]"
    by (simp add: runTask_def failThirdEnv_def okEngine_def threeEnvs_def firstWorker_def
        createTraderWorker_def newTraderWorker_def engineCall_def Let_def pushFitness_def recordsOf_def
        calcFitness_def)
  have c: "task_calls (runTask failThirdEnv threeEnvs firstWorker)
       = [Init, Start, Stop, Init, Start, Stop, Init, Start, Stop]"
    by (simp add: runTask_def failThirdEnv_def okEngine_def threeEnvs_def firstWorker_def
        createTraderWorker_def newTraderWorker_def engineCall_def Let_def)
  from failed_task_records[OF h, of okEngine] h f c show ?thesis by simp
qed

section \<open>Properties of sorting and ranking\<close>

lemma ebind_Inr [simp]: "ebind (Inr x) f = f x"
  by (simp add: ebind_def)

lemma ebind_Inl [simp]: "ebind (Inl e) f = Inl e"
  by (simp add: ebind_def)

lemma getFitness_defined: "fitnesses t = Some fs \<Longrightarrow> getFitness t k = Inr (score fs k)"
  by (simp add: getFitness_def)

lemma byFitnessDesc_defined:
  assumes "fitnesses a \<noteq> None" "fitnesses b \<noteq> None"
  shows "\<exists>v. byFitnessDesc a b = Inr v"
  using assms by (auto simp: byFitnessDesc_def getFitness_def)

lemma insertSorted_defined:
  assumes "fitnesses x \<noteq> None" "\<forall>t\<in>set ys. fitnesses t \<noteq> None"
  shows "\<exists>zs. insertSorted byFitnessDesc x ys = Inr zs \<and> mset zs = add_mset x (mset ys)"
  using assms(2)
proof (induction ys)
  case Nil
  then show ?case by simp
next
  case (Cons y ys)
  from Cons.prems assms(1) obtain v where v: "byFitnessDesc x y = Inr v"
    using byFitnessDesc_defined[of x y] by auto
  from Cons obtain zs where zs: "insertSorted byFitnessDesc x ys = Inr zs" "mset zs = add_mset x (mset ys)"
    by auto
  show ?case using v zs by simp
qed

lemma Array_sort_defined:
  assumes "\<forall>t\<in>set xs. fitnesses t \<noteq> None"
  shows "\<exists>zs. Array_sort byFitnessDesc xs = Inr zs \<and> mset zs = mset xs"
  using assms
proof (induction xs)
  case Nil
  then show ?case by simp
next
  case (Cons x xs)
  then obtain ys where ys: "Array_sort byFitnessDesc xs = Inr ys" "mset ys = mset xs"
    by auto
  from ys(2) Cons.prems have "\<forall>t\<in>set ys. fitnesses t \<noteq> None"
    by (metis list.set_intros(2) set_mset_mset)
  with Cons.prems obtain zs where "insertSorted byFitnessDesc x ys = Inr zs" "mset zs = add_mset x (mset ys)"
    using insertSorted_defined[of x ys] by auto
  with ys show ?case by simp
qed

lemma sameFitness_defined:
  assumes "fitnesses x = Some fx" "fitnesses p = Some fp"
  shows "sameFitness x p = jeq (jsub (score fx ''total'') (score fp ''total'')) (Num 0)"
  using assms by (simp add: sameFitness_def getFitness_def)

lemma resortFrom_defined:
  assumes "\<forall>t\<in>set (prev # rest). fitnesses t \<noteq> None" "cur \<le> length res"
  shows "resortFrom prev rest (res, cur) =
           Inr (take cur res @ fronts prev rest @ drop cur res @ backs prev rest,
                cur + length (fronts prev rest))"
  using assms
proof (induction rest arbitrary: prev res cur)
  case Nil
  then show ?case by simp
next
  case (Cons x xs)
  from Cons.prems obtain fx fp where f: "fitnesses x = Some fx" "fitnesses prev = Some fp"
    by auto
  have ih: "\<And>res' cur'. cur' \<le> length res' \<Longrightarrow>
      resortFrom x xs (res', cur') =
        Inr (take cur' res' @ fronts x xs @ drop cur' res' @ backs x xs, cur' + length (fronts x xs))"
    using Cons.IH[of x] Cons.prems(1) by simp
  show ?case
  proof (cases "sameFitness x prev")
    case True
    then have "resortFrom prev (x # xs) (res, cur) = resortFrom x xs (res @ [x], cur)"
      using f by (simp add: getFitness_def sameFitness_def)
    also have "\<dots> = Inr (take cur (res @ [x]) @ fronts x xs @ drop cur (res @ [x]) @ backs x xs,
                         cur + length (fronts x xs))"
      using Cons.prems(2) by (intro ih) simp
    finally show ?thesis using True Cons.prems(2) by simp
  next
    case False
    then have "resortFrom prev (x # xs) (res, cur) = resortFrom x xs (splice res cur x, cur + 1)"
      using f by (simp add: getFitness_def sameFitness_def)
    also have "\<dots> = Inr (take (cur + 1) (splice res cur x) @ fronts x xs
                           @ drop (cur + 1) (splice res cur x) @ backs x xs,
                         cur + 1 + length (fronts x xs))"
      using Cons.prems(2) by (intro ih) (simp add: splice_def)
    finally show ?thesis using False Cons.prems(2) by (simp add: splice_def min_def)
  qed
qed

lemma resort_defined:
  assumes "\<forall>t\<in>set (x # xs). fitnesses t \<noteq> None"
  shows "resort (x # xs) = Inr (x # fronts x xs @ backs x xs)"
  using resortFrom_defined[OF assms, of 1 "[x]"] by (simp add: resort_def)

lemma mset_fronts_backs: "mset (fronts p xs) + mset (backs p xs) = mset xs"
  by (induction xs arbitrary: p) auto

lemma resort_permutes:
  assumes "\<forall>t\<in>set xs. fitnesses t \<noteq> None"
  shows "\<exists>zs. resort xs = Inr zs \<and> mset zs = mset xs"
proof (cases xs)
  case Nil
  then show ?thesis by (simp add: resort_def)
next
  case (Cons x xs')
  with assms resort_defined[of x xs'] mset_fronts_backs[of x xs'] show ?thesis
    by (auto simp: union_commute)
qed

lemma rankGeneration_permutes:
  assumes "\<forall>t\<in>set xs. fitnesses t \<noteq> None"
  shows "\<exists>zs. rankGeneration xs = Inr zs \<and> mset zs = mset xs"
proof -
  from Array_sort_defined[OF assms] obtain ys where
    ys: "Array_sort byFitnessDesc xs = Inr ys" "mset ys = mset xs" by blast
  from ys(2) assms have "\<forall>t\<in>set ys. fitnesses t \<noteq> None"
    by (metis set_mset_mset)
  from resort_permutes[OF this] ys show ?thesis
    by (auto simp: rankGeneration_def)
qed

lemma numKey_bounds: "- 2 < arctan r" "arctan r < 2"
proof -
  have "pi / 2 < 2" using pi_less_4 by simp
  then show "arctan r < 2" using arctan_ubound[of r] by linarith
  have "- 2 < - (pi / 2)" using pi_less_4 by simp
  then show "- 2 < arctan r" using arctan_lbound[of r] by linarith
qed

lemma numKey_less: "x \<noteq> NaN \<Longrightarrow> y \<noteq> NaN \<Longrightarrow> (numKey x < numKey y) = jlt x y"
  using numKey_bounds
  by (cases x; cases y) (auto simp: arctan_less_iff less_imp_le not_less)

lemma jgt_jsub: "x \<noteq> NaN \<Longrightarrow> y \<noteq> NaN \<Longrightarrow> jgt (jsub y x) (Num 0) = jlt x y"
  by (cases x; cases y) (auto simp: jgt_def jsub_def)

lemma numKey_eq_Num: "v \<noteq> NaN \<Longrightarrow> numKey v = arctan r \<Longrightarrow> v = Num r"
  using numKey_bounds[of r]
  by (cases v) (auto simp: arctan_eq_iff)

lemma comparableE:
  assumes "comparable t"
  obtains fs where "fitnesses t = Some fs" "score fs ''total'' \<noteq> NaN"
    "getFitness t ''total'' = Inr (score fs ''total'')"
    "fitnessKey t = - numKey (score fs ''total'')"
  using assms
  by (auto simp: comparable_def getFitness_def fitnessKey_def split: option.splits)

lemma comparable_defined: "comparable t \<Longrightarrow> fitnesses t \<noteq> None"
  by (auto elim: comparableE)

lemma byFitnessDesc_comparable:
  assumes "comparable x" "comparable y"
  shows "\<exists>v. byFitnessDesc x y = Inr v \<and> jgt v (Num 0) = (\<not> fitnessKey x \<le> fitnessKey y)"
proof -
  from assms(1) obtain fx where x: "fitnesses x = Some fx" "score fx ''total'' \<noteq> NaN"
    "fitnessKey x = - numKey (score fx ''total'')" by (rule comparableE)
  from assms(2) obtain fy where y: "fitnesses y = Some fy" "score fy ''total'' \<noteq> NaN"
    "fitnessKey y = - numKey (score fy ''total'')" by (rule comparableE)
  have "byFitnessDesc x y = Inr (jsub (score fy ''total'') (score fx ''total''))"
    using x(1) y(1) by (simp add: byFitnessDesc_def getFitness_def)
  moreover have "jgt (jsub (score fy ''total'') (score fx ''total'')) (Num 0)
                   = (\<not> fitnessKey x \<le> fitnessKey y)"
    using jgt_jsub[OF x(2) y(2)] numKey_less[OF x(2) y(2)] x(3) y(3) by auto
  ultimately show ?thesis by simp
qed

lemma insertSorted_comparable:
  assumes "comparable x" "\<forall>t\<in>set ys. comparable t"
  shows "insertSorted byFitnessDesc x ys = Inr (insort_key fitnessKey x ys)"
  using assms(2)
proof (induction ys)
  case Nil
  then show ?case by simp
next
  case (Cons y ys)
  from byFitnessDesc_comparable[OF assms(1), of y] Cons.prems obtain v where
    v: "byFitnessDesc x y = Inr v" "jgt v (Num 0) = (\<not> fitnessKey x \<le> fitnessKey y)" by auto
  from Cons have ih: "insertSorted byFitnessDesc x ys = Inr (insort_key fitnessKey x ys)" by simp
  show ?case using v ih by simp
qed

lemma Array_sort_comparable:
  assumes "\<forall>t\<in>set xs. comparable t"
  shows "Array_sort byFitnessDesc xs = Inr (sort_key fitnessKey xs)"
  using assms
proof (induction xs)
  case Nil
  then show ?case by simp
next
  case (Cons x xs)
  then have "Array_sort byFitnessDesc xs = Inr (sort_key fitnessKey xs)" by simp
  moreover have "insertSorted byFitnessDesc x (sort_key fitnessKey xs)
                   = Inr (insort_key fitnessKey x (sort_key fitnessKey xs))"
    using Cons.prems by (intro insertSorted_comparable) auto
  ultimately show ?case by simp
qed

text \<open>Two comparable individuals with the same fitness have a real fitness, the same for
  both; two with equal keys and a real fitness have the same fitness.\<close>

lemma sameFitness_real:
  assumes "comparable x" "comparable p"
  shows "sameFitness x p \<longleftrightarrow>
           (\<exists>r. getFitness x ''total'' = Inr (Num r) \<and> getFitness p ''total'' = Inr (Num r))"
proof -
  from assms(1) obtain fx where x: "fitnesses x = Some fx" by (rule comparableE)
  from assms(2) obtain fp where p: "fitnesses p = Some fp" by (rule comparableE)
  show ?thesis
    using x p
    by (cases "score fx ''total''"; cases "score fp ''total''")
       (auto simp: sameFitness_def getFitness_def jeq_def jsub_def)
qed

lemma sameFitness_key:
  assumes "comparable x" "comparable p" "sameFitness x p"
  shows "fitnessKey x = fitnessKey p"
  using assms sameFitness_real[OF assms(1,2)] by (auto simp: fitnessKey_def)

lemma equal_key_real:
  assumes "comparable x" "getFitness p ''total'' = Inr (Num r)" "fitnessKey x = fitnessKey p"
  shows "getFitness x ''total'' = Inr (Num r)"
proof -
  from assms(1) obtain fx where x: "score fx ''total'' \<noteq> NaN"
    "getFitness x ''total'' = Inr (score fx ''total'')"
    "fitnessKey x = - numKey (score fx ''total'')" by (rule comparableE)
  from assms(2,3) x(3) have "numKey (score fx ''total'') = arctan r"
    by (simp add: fitnessKey_def)
  from numKey_eq_Num[OF x(1) this] x(2) show ?thesis by simp
qed

lemma set_fronts: "set (fronts p xs) \<subseteq> set xs"
  by (induction xs arbitrary: p) auto

lemma fronts_other_key:
  assumes "sorted (map fitnessKey (p # xs))" "\<forall>t\<in>set (p # xs). comparable t"
    "getFitness p ''total'' = Inr (Num r)"
  shows "\<forall>y\<in>set (fronts p xs). fitnessKey y \<noteq> fitnessKey p"
  using assms
proof (induction xs arbitrary: p r)
  case Nil
  then show ?case by simp
next
  case (Cons x xs)
  have cx: "comparable x" and cp: "comparable p" using Cons.prems(2) by auto
  have srt: "sorted (map fitnessKey (x # xs))" using Cons.prems(1) by simp
  have call: "\<forall>t\<in>set (x # xs). comparable t" using Cons.prems(2) by simp
  show ?case
  proof (cases "sameFitness x p")
    case True
    with sameFitness_real[OF cx cp] Cons.prems(3) have fx: "getFitness x ''total'' = Inr (Num r)"
      by auto
    have "fitnessKey x = fitnessKey p" using sameFitness_key[OF cx cp True] .
    with Cons.IH[OF srt call fx] True show ?thesis by simp
  next
    case False
    have ne: "fitnessKey x \<noteq> fitnessKey p"
    proof
      assume "fitnessKey x = fitnessKey p"
      from equal_key_real[OF cx Cons.prems(3) this] Cons.prems(3) sameFitness_real[OF cx cp] False
      show False by auto
    qed
    with Cons.prems(1) have lt: "fitnessKey p < fitnessKey x" by auto
    have "\<forall>y\<in>set xs. fitnessKey x \<le> fitnessKey y" using srt by auto
    with lt set_fronts[of x xs] have "\<forall>y\<in>set (fronts x xs). fitnessKey y \<noteq> fitnessKey p"
      by fastforce
    with ne False show ?thesis by simp
  qed
qed

lemma filter_fronts_backs:
  assumes "sorted (map fitnessKey (p # xs))" "\<forall>t\<in>set (p # xs). comparable t"
  shows "filter (\<lambda>y. c = fitnessKey y) (fronts p xs) @ filter (\<lambda>y. c = fitnessKey y) (backs p xs)
           = filter (\<lambda>y. c = fitnessKey y) xs"
  using assms
proof (induction xs arbitrary: p)
  case Nil
  then show ?case by simp
next
  case (Cons x xs)
  have cx: "comparable x" and cp: "comparable p" using Cons.prems(2) by auto
  have srt: "sorted (map fitnessKey (x # xs))" using Cons.prems(1) by simp
  have call: "\<forall>t\<in>set (x # xs). comparable t" using Cons.prems(2) by simp
  note ih = Cons.IH[OF srt call]
  show ?case
  proof (cases "sameFitness x p \<and> c = fitnessKey x")
    case True
    then obtain r where "getFitness x ''total'' = Inr (Num r)"
      using sameFitness_real[OF cx cp] by auto
    from fronts_other_key[OF srt call this] True
    have "filter (\<lambda>y. c = fitnessKey y) (fronts x xs) = []"
      by (auto simp: filter_empty_conv)
    with ih True show ?thesis by simp
  next
    case False
    with ih show ?thesis by auto
  qed
qed

lemma rankGeneration_comparable:
  assumes "\<forall>t\<in>set xs. comparable t"
  shows "rankGeneration xs = resort (sort_key fitnessKey xs)"
  by (simp add: rankGeneration_def Array_sort_comparable[OF assms])

lemma sort_key_resort:
  assumes "\<forall>t\<in>set (s # ss). comparable t" "sorted (map fitnessKey (s # ss))"
  shows "sort_key fitnessKey (s # fronts s ss @ backs s ss) = s # ss"
proof (rule properties_for_sort_key)
  show "mset (s # ss) = mset (s # fronts s ss @ backs s ss)"
    using mset_fronts_backs[of s ss] by simp
  show "sorted (map fitnessKey (s # ss))" by fact
  fix k
  show "filter (\<lambda>x. fitnessKey k = fitnessKey x) (s # ss)
          = filter (\<lambda>x. fitnessKey k = fitnessKey x) (s # fronts s ss @ backs s ss)"
    by (simp add: filter_fronts_backs[OF assms(2,1)])
qed

text \<open>
  C3, as it holds. For every generation whose individuals have an aggregate total fitness
  that is a number other than NaN (so that the comparator of the sort is a consistent
  order), the ranking succeeds and ranking its result again returns the same list.
\<close>

theorem ranking_idempotent:
  assumes "\<forall>t\<in>set population. comparable t"
  shows "\<exists>ranked. rankGeneration population = Inr ranked \<and> rankGeneration ranked = Inr ranked"
proof (cases "sort_key fitnessKey population")
  case Nil
  then have "population = []"
    by (metis mset_sort mset_zero_iff)
  then show ?thesis by (simp add: rankGeneration_def resort_def)
next
  case (Cons s ss)
  have cs: "\<forall>t\<in>set (s # ss). comparable t"
    using assms Cons by (metis set_sort)
  have srt: "sorted (map fitnessKey (s # ss))"
    using sorted_sort_key[of fitnessKey population] Cons by simp
  let ?ranked = "s # fronts s ss @ backs s ss"
  have defd: "\<forall>t\<in>set (s # ss). fitnesses t \<noteq> None"
    using cs comparable_defined by blast
  have r1: "rankGeneration population = Inr ?ranked"
    using rankGeneration_comparable[OF assms] Cons resort_defined[OF defd] by simp
  have "set ?ranked = set (s # ss)"
    using mset_fronts_backs[of s ss] by (metis mset.simps(2) mset_append set_mset_mset)
  with cs have cr: "\<forall>t\<in>set ?ranked. comparable t" by blast
  have "rankGeneration ?ranked = resort (sort_key fitnessKey ?ranked)"
    using rankGeneration_comparable[OF cr] .
  also have "\<dots> = resort (s # ss)"
    using sort_key_resort[OF cs srt] by simp
  also have "\<dots> = Inr ?ranked"
    using resort_defined[OF defd] .
  finally show ?thesis using r1 by blast
qed

lemma getFitness_scored [simp]: "getFitness (scored nm x) ''total'' = Inr (Num x)"
  by (simp add: scored_def getFitness_def score_def fitnessAt_def)

lemma comparable_scored [simp]: "comparable (scored nm x)"
  by (simp add: comparable_def)

lemma ranking_example:
  "rankGeneration fourScored = Inr [scored ''b'' 5, scored ''a'' 3, scored ''d'' 1, scored ''c'' 5]"
  by (simp add: fourScored_def rankGeneration_def resort_def byFitnessDesc_def jsub_def jgt_def
      jeq_def splice_def)

theorem ranking_idempotent_witness:
  "list_all comparable fourScored
   \<and> (\<exists>ranked. rankGeneration fourScored = Inr ranked \<and> rankGeneration ranked = Inr ranked)"
proof -
  have h: "\<forall>t\<in>set fourScored. comparable t" by (simp add: fourScored_def)
  from ranking_idempotent[OF h] h show ?thesis unfolding list_all_iff by blast
qed

lemma getFitness_unclamped [simp]: "getFitness (unclamped nm) ''total'' = Inr NaN"
proof -
  have "total (calcFitness twoEqualTrades) = NaN"
    by (simp add: calcFitness_def twoEqualTrades_def newTraderWorker_def baseConfig_def fourWeeks_def
        calcSharpeRatio_def penaliseProfit_def clampSharpe_def jeq_def jsub_def jgt_def
        signed_inf_def daysBetween_def Let_def)
  then show ?thesis
    by (simp add: unclamped_def getFitness_def score_def fitnessAt_def)
qed

lemma scored_differ: "x \<noteq> y \<Longrightarrow> scored nm x \<noteq> scored nm' y"
proof
  assume "x \<noteq> y" "scored nm x = scored nm' y"
  then have "getFitness (scored nm x) ''total'' = getFitness (scored nm' y) ''total''" by simp
  with \<open>x \<noteq> y\<close> show False by simp
qed

text \<open>
  C3, as stated, fails for a generation with an individual whose aggregate total is NaN,
  which the fitness evaluation produces for a trial whose trades all have a profit of 0.5
  percent. The generation has the totals 2, 2, NaN and 1. Every comparison with \<open>c\<close> answers
  NaN, which the sort takes for equal, so the first sort leaves the list as it is, and the
  rebuild, for which a difference of NaN is no duplicate, moves \<open>c\<close> and \<open>d\<close> in front of
  \<open>b\<close>. In the second ranking the sort finds \<open>b\<close> behind \<open>d\<close> and moves it in front of
  \<open>d\<close>, where the rebuild keeps it: the order has changed.
\<close>

theorem ranking_not_idempotent:
  "rankGeneration withNaN = Inr [scored ''a'' 2, unclamped ''c'', scored ''d'' 1, scored ''b'' 2]
   \<and> rankGeneration [scored ''a'' 2, unclamped ''c'', scored ''d'' 1, scored ''b'' 2]
       = Inr [scored ''a'' 2, unclamped ''c'', scored ''b'' 2, scored ''d'' 1]
   \<and> [scored ''a'' 2, unclamped ''c'', scored ''d'' 1, scored ''b'' 2]
       \<noteq> [scored ''a'' 2, unclamped ''c'', scored ''b'' 2, scored ''d'' 1]"
proof -
  have 1: "rankGeneration withNaN = Inr [scored ''a'' 2, unclamped ''c'', scored ''d'' 1, scored ''b'' 2]"
    by (simp add: withNaN_def rankGeneration_def resort_def byFitnessDesc_def jsub_def jgt_def
      jeq_def splice_def)
  have 2: "rankGeneration [scored ''a'' 2, unclamped ''c'', scored ''d'' 1, scored ''b'' 2]
       = Inr [scored ''a'' 2, unclamped ''c'', scored ''b'' 2, scored ''d'' 1]"
    by (simp add: rankGeneration_def resort_def byFitnessDesc_def jsub_def jgt_def
      jeq_def splice_def)
  from 1 2 scored_differ[of 1 2 "''d''" "''b''"] show ?thesis by simp
qed

section \<open>Properties of a generation's tasks\<close>

lemma length_runGeneration [simp]:
  "length (runGeneration engines opts population) = length population"
  by (simp add: runGeneration_def)

lemma nth_runGeneration:
  "i < length population \<Longrightarrow>
     runGeneration engines opts population ! i = runTask (engines i) opts (population ! i)"
  by (simp add: runGeneration_def nth_enumerate_eq)

lemma in_runGeneration:
  assumes "r \<in> set (runGeneration engines opts population)"
  obtains i where "i < length population" "r = runTask (engines i) opts (population ! i)"
proof -
  from assms obtain i where "i < length (runGeneration engines opts population)"
    "r = runGeneration engines opts population ! i"
    by (metis in_set_conv_nth)
  then show ?thesis using that nth_runGeneration[of i population engines opts] by simp
qed

lemma runGeneration_records:
  assumes "envs opts \<noteq> []" "\<forall>t\<in>set population. coherent t"
  shows "\<forall>r\<in>set (runGeneration engines opts population).
           \<exists>fs. fitnesses (task_worker r) = Some fs \<and> fs \<noteq> []"
proof
  fix r assume "r \<in> set (runGeneration engines opts population)"
  then obtain i where i: "i < length population" "r = runTask (engines i) opts (population ! i)"
    by (rule in_runGeneration)
  from i(1) assms(2) have "coherent (population ! i)" by simp
  from runTask_records[OF assms(1) this, of "engines i"] i(2)
  show "\<exists>fs. fitnesses (task_worker r) = Some fs \<and> fs \<noteq> []" by simp
qed

lemma emap_getFitness:
  assumes "\<forall>t\<in>set g. fitnesses t \<noteq> None"
  shows "emap (\<lambda>t. getFitness t k) g = Inr (map (\<lambda>t. score (recordsOf t) k) g)"
  using assms by (induction g) (auto simp: getFitness_def recordsOf_def)

lemma afterIdle_defined:
  assumes "population \<noteq> []" "\<forall>t\<in>set population. fitnesses t \<noteq> None"
  shows "\<exists>g cp. afterIdle population = Inr (g, cp) \<and> mset g = mset population
           \<and> gen_entries cp = map (\<lambda>t. (name (config t), fitnesses t, stratOpts (config t))) g"
proof -
  from Array_sort_defined[OF assms(2)] obtain g where
    g: "Array_sort byFitnessDesc population = Inr g" "mset g = mset population" by blast
  from g(2) assms(2) have d: "\<forall>t\<in>set g. fitnesses t \<noteq> None" by (metis set_mset_mset)
  from g(2) assms(1) have "g \<noteq> []" by auto
  then show ?thesis
    using g emap_getFitness[OF d, of "''total''"]
    by (simp add: afterIdle_def mean_def)
qed

text \<open>
  C10, as it holds. With at least one environment, and the individuals that enter the
  generation marked as run holding records (which is so in every generation the optimizer
  builds: \<open>coherent\<close> below), every individual has a non-empty list of records once the tasks
  of the generation have settled, and its aggregate fitness for any metric is the sum over
  these records divided by their number, which is not zero.
\<close>

theorem records_after_idle:
  assumes "envs opts \<noteq> []" "\<forall>t\<in>set population. coherent t"
  shows "\<forall>r\<in>set (runGeneration engines opts population).
           \<exists>fs. fitnesses (task_worker r) = Some fs \<and> 0 < length fs
              \<and> getFitness (task_worker r) k
                  = Inr (jdiv (foldl (\<lambda>sum f. jadd sum (fitnessAt f k)) (Num 0) fs) (Num (real (length fs))))"
proof
  fix r assume "r \<in> set (runGeneration engines opts population)"
  with runGeneration_records[OF assms] obtain fs where
    "fitnesses (task_worker r) = Some fs" "fs \<noteq> []" by blast
  then show "\<exists>fs. fitnesses (task_worker r) = Some fs \<and> 0 < length fs
              \<and> getFitness (task_worker r) k
                  = Inr (jdiv (foldl (\<lambda>sum f. jadd sum (fitnessAt f k)) (Num 0) fs) (Num (real (length fs))))"
    by (simp add: getFitness_def score_def)
qed

lemma createTraderWorker_fields [simp]:
  "hasRunned (createTraderWorker c nm so sil) = False"
  "fitnesses (createTraderWorker c nm so sil) = None"
  "stratOpts (config (createTraderWorker c nm so sil)) = so"
  "name (config (createTraderWorker c nm so sil)) = nm"
  "aggTimes (env (config (createTraderWorker c nm so sil))) = []"
  "candleSetPlugins (env (config (createTraderWorker c nm so sil))) = []"
  "backtest (env (config (createTraderWorker c nm so sil))) = backtest (env c)"
  "worker_silent (createTraderWorker c nm so sil) = sil"
  "trader_config (trader (createTraderWorker c nm so sil)) = config (createTraderWorker c nm so sil)"
  "status (trader (createTraderWorker c nm so sil)) = STOP"
  by (simp_all add: createTraderWorker_def newTraderWorker_def Let_def)

lemma coherent_created [simp]: "coherent (createTraderWorker c nm so sil)"
  by (simp add: coherent_def)

theorem records_after_idle_witness:
  "envs oneEnv \<noteq> [] \<and> list_all coherent fiveWorkers
   \<and> list_all (\<lambda>r. \<exists>fs. fitnesses (task_worker r) = Some fs \<and> 0 < length fs
            \<and> getFitness (task_worker r) ''total''
                = Inr (jdiv (foldl (\<lambda>sum f. jadd sum (fitnessAt f ''total'')) (Num 0) fs) (Num (real (length fs)))))
        (runGeneration thirdFails oneEnv fiveWorkers)"
proof -
  have h1: "envs oneEnv \<noteq> []" by (simp add: oneEnv_def)
  have h2: "\<forall>t\<in>set fiveWorkers. coherent t" by (simp add: fiveWorkers_def)
  from records_after_idle[OF h1 h2, of thirdFails "''total''"] h1 h2 show ?thesis
    unfolding list_all_iff by blast
qed

text \<open>
  C10, as stated, fails when the list of environments is empty: the loop of the task has
  no turn, nothing is pushed, and \<open>fitnesses\<close> stays \<open>undefined\<close>, so that \<open>getFitness\<close>
  throws.
\<close>

theorem no_environment_no_record:
  "fitnesses (task_worker (runGeneration thirdFails (oneEnv\<lparr> envs := [] \<rparr>) fiveWorkers ! 0)) = None
   \<and> getFitness (task_worker (runGeneration thirdFails (oneEnv\<lparr> envs := [] \<rparr>) fiveWorkers ! 0)) ''total''
       = Inl TypeError"
  by (simp add: nth_runGeneration fiveWorkers_def runTask_def getFitness_def)

lemma runGeneration_other_engine:
  assumes "j < length population" "j \<noteq> i"
  shows "runGeneration (engines(i := eng')) opts population ! j
           = runGeneration engines opts population ! j"
  using assms by (simp add: nth_runGeneration)



section \<open>Properties of construction\<close>

lemma aggregation_off_created [simp]: "aggregation_off (createTraderWorker c nm so sil)"
  by (simp add: aggregation_off_def)

lemma randomIndiv_eq:
  "randomIndiv c opts gen ind rnd n =
     (createTraderWorker c (indivName c gen ind)
        (fst (fold (sampleGene rnd) (genes opts) (stratOpts c, n))) (silent opts),
      snd (fold (sampleGene rnd) (genes opts) (stratOpts c, n)))"
  by (simp add: randomIndiv_def case_prod_beta)

lemma mutate_eq:
  "mutate c t opts gen ind rnd n =
     (createTraderWorker c (indivName c gen ind)
        (fst (fold (mutateGene rnd (mutationRate opts) (stratOpts (config t))) (genes opts)
                (stratOpts (config t), n))) (silent opts),
      snd (fold (mutateGene rnd (mutationRate opts) (stratOpts (config t))) (genes opts)
                (stratOpts (config t), n)))"
  by (simp add: mutate_def Let_def case_prod_beta)

lemma crossover_created:
  "\<exists>so n'. crossover nm a b opts rnd n
              = (createTraderWorker (trader_config (trader a)) nm so (silent opts), n')"
  by (auto simp: crossover_def case_prod_beta)

lemma randomIndiv_created:
  "\<exists>so n'. randomIndiv c opts gen ind rnd n
              = (createTraderWorker c (indivName c gen ind) so (silent opts), n')"
  by (auto simp: randomIndiv_eq)

lemma mutate_created:
  "\<exists>so n'. mutate c t opts gen ind rnd n
              = (createTraderWorker c (indivName c gen ind) so (silent opts), n')"
  by (auto simp: mutate_eq)

lemma makeFrom_created:
  "\<forall>t\<in>set (fst (makeFrom k c opts gen ind rnd n)). \<exists>nm so. t = createTraderWorker c nm so (silent opts)"
proof (induction k arbitrary: ind n)
  case 0
  then show ?case by simp
next
  case (Suc k)
  show ?case
  proof (cases "ind = 0")
    case True
    then show ?thesis using Suc[of "Suc ind" n] by (auto split: prod.splits)
  next
    case False
    obtain so n' where r: "randomIndiv c opts gen ind rnd n = (createTraderWorker c (indivName c gen ind) so (silent opts), n')"
      using randomIndiv_created by blast
    show ?thesis using False r Suc[of "Suc ind" n'] by (auto split: prod.splits)
  qed
qed

lemma makeFrom_Suc:
  "fst (makeFrom (Suc k) c opts gen ind rnd n) =
     fst (if ind = 0
          then (createTraderWorker c (indivName c gen ind) (stratOpts c) (silent opts), n)
          else randomIndiv c opts gen ind rnd n)
     # fst (makeFrom k c opts gen (Suc ind) rnd
             (snd (if ind = 0
                   then (createTraderWorker c (indivName c gen ind) (stratOpts c) (silent opts), n)
                   else randomIndiv c opts gen ind rnd n)))"
  by (simp add: case_prod_beta)

lemma length_makeFrom [simp]: "length (fst (makeFrom k c opts gen ind rnd n)) = k"
  by (induction k arbitrary: ind n) (simp_all add: makeFrom_Suc del: makeFrom.simps(2))

lemma worker_hasRunned_update [simp]:
  "config (w\<lparr> hasRunned := b \<rparr>) = config w"
  by simp

lemma runTask_config_env:
  "aggTimes (env (config (task_worker (runTask eng opts w)))) = aggTimes (env (config w))
   \<and> candleSetPlugins (env (config (task_worker (runTask eng opts w)))) = candleSetPlugins (env (config w))"
proof (cases "hasRunned w")
  case True
  then show ?thesis by (simp add: runTask_skip)
next
  case False
  show ?thesis
  proof (cases "envLoop eng (envs opts) 0 \<lparr> worker = w, calls = [] \<rparr>")
    case (Inl x)
    obtain err s where x: "x = (err, s)" by (cases x)
    from envLoop_Inl[OF Inl[unfolded x]] obtain recs cs where
      "continues \<lparr> worker = w, calls = [] \<rparr> recs cs s" by blast
    moreover from runTask_thrown(2)[OF False Inl[unfolded x]] obtain tr where
      "task_worker (runTask eng opts w) = (pushFitness sentinel (worker s))\<lparr> trader := tr \<rparr>"
      by blast
    ultimately show ?thesis by (simp add: continues_def)
  next
    case (Inr s)
    from envLoop_Inr[OF Inr] obtain recs where
      "continues \<lparr> worker = w, calls = [] \<rparr> recs (concat (replicate (length (envs opts)) [Init, Start, Stop])) s"
      by blast
    then show ?thesis by (simp add: runTask_completed[OF False Inr] continues_def)
  qed
qed

text \<open>
  C8. Whatever the configuration handed in says about \<open>aggTimes\<close> and \<open>candleSetPlugins\<close>,
  every worker that the optimizer constructs (directly, as a random individual, as a
  mutated child, as a crossover child, and so every individual of a first generation) has
  both lists empty in the environment of its configuration, and a trial does not change
  that.
\<close>

theorem constructed_without_aggregation:
  "aggregation_off (createTraderWorker traderConfig nm so sil)
   \<and> aggregation_off (fst (randomIndiv traderConfig opts gen ind rnd n))
   \<and> aggregation_off (fst (mutate traderConfig t opts gen ind rnd n))
   \<and> aggregation_off (fst (crossover nm a b opts rnd n))
   \<and> list_all aggregation_off (fst (makeGeneration traderConfig opts gen rnd n))
   \<and> aggregation_off (task_worker (runTask eng opts (createTraderWorker traderConfig nm so sil)))"
proof -
  have 1: "aggregation_off (fst (randomIndiv traderConfig opts gen ind rnd n))"
    using randomIndiv_created[of traderConfig opts gen ind rnd n] by auto
  have 2: "aggregation_off (fst (mutate traderConfig t opts gen ind rnd n))"
    using mutate_created[of traderConfig t opts gen ind rnd n] by auto
  have 3: "aggregation_off (fst (crossover nm a b opts rnd n))"
    using crossover_created[of nm a b opts rnd n] by auto
  have 4: "list_all aggregation_off (fst (makeGeneration traderConfig opts gen rnd n))"
    unfolding makeGeneration_def list_all_iff
    using makeFrom_created[of "nat (popSize opts)" traderConfig opts gen 0 rnd n] by auto
  have 5: "aggregation_off (task_worker (runTask eng opts w))" if "aggregation_off w" for w
    using that runTask_config_env[of eng opts w] by (simp add: aggregation_off_def)
  show ?thesis using 1 2 3 4 5 by simp
qed

section \<open>Properties of breeding\<close>

lemma fresh_children [simp]:
  "fresh (createTraderWorker c nm so sil)"
  "fresh (fst (randomIndiv c opts gen ind rnd n))"
  "fresh (fst (mutate c t opts gen ind rnd n))"
  "fresh (fst (crossover nm a b opts rnd n))"
proof -
  show "fresh (createTraderWorker c nm so sil)" by (simp add: fresh_def)
  then show "fresh (fst (randomIndiv c opts gen ind rnd n))" by (simp add: randomIndiv_eq fresh_def)
  show "fresh (fst (mutate c t opts gen ind rnd n))" by (simp add: mutate_eq fresh_def)
  show "fresh (fst (crossover nm a b opts rnd n))"
    using crossover_created[of nm a b opts rnd n] by (auto simp: fresh_def)
qed

lemma fresh_coherent: "fresh t \<Longrightarrow> coherent t"
  by (simp add: fresh_def coherent_def)

lemma breedLoop_Suc:
  "breedLoop (Suc k) c population opts gen rnd acc n =
     (if randomBetween 0 1 False (rnd n) < 0.6 then
        (case tournamentSelection population 4 rnd (Suc n) of
           Inl e \<Rightarrow> Inl e
         | Inr sel \<Rightarrow>
             (case elemAt (fst sel) 0 of
                None \<Rightarrow> Inl TypeError
              | Some t1 \<Rightarrow>
                  (case elemAt (fst sel) 1 of
                     None \<Rightarrow> Inl TypeError
                   | Some t2 \<Rightarrow>
                       breedLoop k c population opts gen rnd
                         (acc @ [fst (crossover (indivName c gen (length acc)) t1 t2 opts rnd (snd sel))])
                         (snd (crossover (indivName c gen (length acc)) t1 t2 opts rnd (snd sel))))))
      else if randomBetween 0 1 False (rnd n) < 0.9 then
        (case randomElement population (rnd (Suc n)) of
           None \<Rightarrow> Inl TypeError
         | Some t \<Rightarrow>
             breedLoop k c population opts gen rnd
               (acc @ [fst (mutate c t opts gen (length acc) rnd (Suc (Suc n)))])
               (snd (mutate c t opts gen (length acc) rnd (Suc (Suc n)))))
      else
        breedLoop k c population opts gen rnd
          (acc @ [fst (randomIndiv c opts gen (length acc) rnd (Suc n))])
          (snd (randomIndiv c opts gen (length acc) rnd (Suc n))))"
  by (simp add: Let_def ebind_def case_prod_beta split: sum.splits option.splits)

lemma breedLoop_appends:
  "breedLoop k c population opts gen rnd acc n = Inr (res, n') \<Longrightarrow>
     \<exists>children. res = acc @ children \<and> length children = k \<and> (\<forall>t\<in>set children. fresh t)"
proof (induction k arbitrary: acc n)
  case 0
  then show ?case by simp
next
  case (Suc k)
  from Suc.prems obtain child n1 where
    step: "breedLoop k c population opts gen rnd (acc @ [child]) n1 = Inr (res, n')"
    and child: "fresh child"
    unfolding breedLoop_Suc
    by (auto split: if_splits sum.splits option.splits)
  from Suc.IH[OF step] obtain children where
    "res = (acc @ [child]) @ children" "length children = k" "\<forall>t\<in>set children. fresh t"
    by blast
  with child show ?case
    by (intro exI[of _ "child # children"]) simp
qed

lemma slice0_length:
  "length (slice0 xs e) = (if e < 0 then nat (int (length xs) + e) else min (nat e) (length xs))"
  by (auto simp: slice0_def)

lemma breedNewGeneration_Inr:
  assumes "breedNewGeneration c population opts gen rnd n = Inr (newGen, n')"
  shows "\<exists>ranked children. rankGeneration population = Inr ranked
           \<and> newGen = slice0 ranked (elitism opts) @ children
           \<and> length children = nat (popSize opts - int (length (slice0 ranked (elitism opts))))
           \<and> (\<forall>t\<in>set children. fresh t)"
proof -
  from assms obtain ranked where
    r: "rankGeneration population = Inr ranked"
    and b: "breedLoop (nat (popSize opts - int (length (slice0 ranked (elitism opts)))))
              c ranked opts gen rnd (slice0 ranked (elitism opts)) n = Inr (newGen, n')"
    by (auto simp: breedNewGeneration_def ebind_def Let_def split: sum.splits)
  from breedLoop_appends[OF b] r show ?thesis by blast
qed

lemma failedOnce_fields:
  "fitnesses failedOnce = Some [sentinel]" "\<not> hasRunned failedOnce"
  by (simp_all add: failedOnce_def runTask_def failStart_def okEngine_def oneEnv_def
      firstWorker_def engineCall_def Let_def recordsOf_def)

text \<open>
  C7, as it holds. The new generation starts with the first \<open>elitism\<close> individuals of the
  ranking of the prior one (as many as there are, when there are fewer), the very same
  individuals: genome, records and \<open>hasRunned\<close> flag. For those of them whose flag is true
  the task makes no engine call and leaves the individual, and so its records, as it is.
\<close>

theorem elites_carried_over:
  assumes "breedNewGeneration traderConfig population opts gen rnd n = Inr (newGen, n')"
  shows "\<exists>ranked. rankGeneration population = Inr ranked
           \<and> (0 \<le> elitism opts \<longrightarrow>
                length (slice0 ranked (elitism opts)) = min (nat (elitism opts)) (length ranked))
           \<and> take (length (slice0 ranked (elitism opts))) newGen = slice0 ranked (elitism opts)
           \<and> (\<forall>i<length (slice0 ranked (elitism opts)).
                 newGen ! i = ranked ! i
                 \<and> stratOpts (config (newGen ! i)) = stratOpts (config (ranked ! i))
                 \<and> (hasRunned (ranked ! i) \<longrightarrow>
                      runTask eng opts (newGen ! i)
                        = \<lparr> task_worker = ranked ! i, task_outcome = Fulfilled,
                            task_calls = [], task_logged = [] \<rparr>))"
proof -
  from breedNewGeneration_Inr[OF assms] obtain ranked children where
    r: "rankGeneration population = Inr ranked"
    and g: "newGen = slice0 ranked (elitism opts) @ children"
    by blast
  let ?elite = "slice0 ranked (elitism opts)"
  have l: "0 \<le> elitism opts \<longrightarrow> length ?elite = min (nat (elitism opts)) (length ranked)"
    by (simp add: slice0_length)
  have t: "take (length ?elite) newGen = ?elite" using g by simp
  have e: "\<forall>i<length ?elite. newGen ! i = ranked ! i"
    using g by (simp add: nth_append slice0_def)
  have s: "\<forall>i<length ?elite. newGen ! i = ranked ! i
                 \<and> stratOpts (config (newGen ! i)) = stratOpts (config (ranked ! i))
                 \<and> (hasRunned (ranked ! i) \<longrightarrow>
                      runTask eng opts (newGen ! i)
                        = \<lparr> task_worker = ranked ! i, task_outcome = Fulfilled,
                            task_calls = [], task_logged = [] \<rparr>)"
    using e by (simp add: runTask_skip)
  from r l t s show ?thesis by blast
qed

theorem elites_carried_over_witness:
  "breedNewGeneration baseConfig fourScored (threeEnvs\<lparr> popSize := 1 \<rparr>) 1 (\<lambda>n. 1 / 2) 0
     = Inr ([scored ''b'' 5], 0)
   \<and> hasRunned (scored ''b'' 5)
   \<and> runTask failStart (threeEnvs\<lparr> popSize := 1 \<rparr>) (scored ''b'' 5)
       = \<lparr> task_worker = scored ''b'' 5, task_outcome = Fulfilled, task_calls = [], task_logged = [] \<rparr>"
proof -
  have h: "breedNewGeneration baseConfig fourScored (threeEnvs\<lparr> popSize := 1 \<rparr>) 1 (\<lambda>n. 1 / 2) 0
     = Inr ([scored ''b'' 5], 0)"
    by (simp add: breedNewGeneration_def ranking_example threeEnvs_def slice0_def)
  have r: "hasRunned (scored ''b'' 5)" by (simp add: scored_def)
  from elites_carried_over[OF h, of failStart] ranking_example r
  have "runTask failStart (threeEnvs\<lparr> popSize := 1 \<rparr>) (scored ''b'' 5)
       = \<lparr> task_worker = scored ''b'' 5, task_outcome = Fulfilled, task_calls = [], task_logged = [] \<rparr>"
    by (simp add: threeEnvs_def slice0_def)
  with h r show ?thesis by blast
qed

text \<open>
  C7, as stated, fails for an elite whose own trial failed: its \<open>hasRunned\<close> flag is false,
  so in the next generation its task runs the whole pipeline again and pushes another
  record.
\<close>

theorem failed_elite_simulated_again:
  "breedNewGeneration baseConfig [failedOnce] oneElite 1 (\<lambda>n. 1 / 2) 0 = Inr ([failedOnce], 0)
   \<and> \<not> hasRunned failedOnce
   \<and> task_calls (runTask okEngine oneElite failedOnce) = [Init, Start, Stop]
   \<and> length (recordsOf failedOnce) = 1
   \<and> length (recordsOf (task_worker (runTask okEngine oneElite failedOnce))) = 2"
proof -
  have 1: "breedNewGeneration baseConfig [failedOnce] oneElite 1 (\<lambda>n. 1 / 2) 0 = Inr ([failedOnce], 0)"
    by (simp add: breedNewGeneration_def rankGeneration_def resort_def oneElite_def oneEnv_def
        threeEnvs_def slice0_def)
  have 2: "task_calls (runTask okEngine oneElite failedOnce) = [Init, Start, Stop]"
    by (simp add: runTask_def failedOnce_fields okEngine_def oneElite_def oneEnv_def
        threeEnvs_def engineCall_def Let_def)
  have 3: "length (recordsOf (task_worker (runTask okEngine oneElite failedOnce))) = 2"
    by (simp add: runTask_def failedOnce_fields okEngine_def oneElite_def oneEnv_def
        threeEnvs_def engineCall_def Let_def recordsOf_def)
  have 4: "length (recordsOf failedOnce) = 1"
    by (simp add: recordsOf_def failedOnce_fields)
  from 1 2 3 4 failedOnce_fields(2) show ?thesis by blast
qed

lemma invalid_first_generation:
  "makeGeneration baseConfig invalidOpts 0 (\<lambda>n. 1 / 2) 0
     = ([createTraderWorker baseConfig ''run-gen0-ind0'' (stratOpts baseConfig) True,
         createTraderWorker baseConfig ''run-gen0-ind1'' (stratOpts baseConfig) True], 0)"
  by (simp add: makeGeneration_def invalidOpts_def numeral_2_eq_2 randomIndiv_eq indivName_def
      string_of_int_def baseConfig_def)

lemma invalid_first_turn:
  "\<not> isl (geneticTurn (\<lambda>i. okEngine) baseConfig invalidOpts 0 None (\<lambda>n. 1 / 2) 0)
   \<and> map task_calls (tasks (projr (geneticTurn (\<lambda>i. okEngine) baseConfig invalidOpts 0 None (\<lambda>n. 1 / 2) 0)))
       = [[Init, Start, Stop], [Init, Start, Stop]]"
  apply (simp add: geneticTurn_def invalid_first_generation)
  apply (simp add: runGeneration_def enumerate_eq_zip upt_rec runTask_def invalidOpts_def okEngine_def engineCall_def Let_def)
  apply (simp add: afterIdle_def byFitnessDesc_def getFitness_def pushFitness_def recordsOf_def score_def fitnessAt_def calcFitness_def
     penaliseProfit_def clampSharpe_def jeq_def jsub_def jgt_def daysBetween_def baseConfig_def fourWeeks_def mean_def)
  done


lemma randomElement_Some:
  assumes "xs \<noteq> []" "0 \<le> r" "r < 1"
  shows "\<exists>x\<in>set xs. randomElement xs r = Some x"
proof -
  let ?n = "real (length xs)"
  have pos: "0 < ?n" using assms(1) by simp
  have "randomBetween 0 (?n - 1) True r = of_int \<lfloor>r * ?n\<rfloor>"
    by (simp add: randomBetween_def)
  moreover have nn: "0 \<le> \<lfloor>r * ?n\<rfloor>" using assms(2) by simp
  moreover have "r * ?n < ?n" using assms(3) pos by simp
  then have lt: "\<lfloor>r * ?n\<rfloor> < int (length xs)" by (simp add: floor_less_iff)
  moreover from lt nn have "xs ! nat \<lfloor>r * ?n\<rfloor> \<in> set xs"
    by (intro nth_mem) (simp add: nat_less_iff)
  ultimately show ?thesis
    by (simp add: randomElement_def Let_def)
qed

lemma unit_drawsD: "unit_draws rnd \<Longrightarrow> 0 \<le> rnd n \<and> rnd n < 1"
  by (simp add: unit_draws_def)

text \<open>Individuals that can take part in a tournament: read from the generation, with
  records.\<close>

lemma checkSameFitness_defined:
  assumes "\<forall>u\<in>set traders. \<exists>t. u = Some t \<and> fitnesses t \<noteq> None"
  shows "\<exists>b. checkSameFitness traders f = Inr b"
  using assms
  by (induction traders) (auto simp: getFitnessU_def getFitness_def)

lemma redraw_defined:
  assumes "unit_draws rnd" "population \<noteq> []" "\<forall>t\<in>set population. fitnesses t \<noteq> None"
    "\<forall>u\<in>set traders. \<exists>t. u = Some t \<and> fitnesses t \<noteq> None"
    "candidate \<in> set population"
  shows "\<exists>t n'. redraw k population rnd traders (Some candidate) n = Inr (Some t, n')
            \<and> t \<in> set population"
  using assms(5)
proof (induction k arbitrary: candidate n)
  case 0
  then show ?case by simp
next
  case (Suc k)
  from Suc.prems assms(3) obtain fs where fs: "fitnesses candidate = Some fs" by auto
  from checkSameFitness_defined[OF assms(4)] obtain b where
    b: "checkSameFitness traders (score fs ''total'') = Inr b" by blast
  from randomElement_Some[OF assms(2)] unit_drawsD[OF assms(1), of n] obtain c where
    c: "c \<in> set population" "randomElement population (rnd n) = Some c" by blast
  show ?case
    using fs b c Suc.IH[OF c(1), of "Suc n"] Suc.prems
    by (cases b) (simp_all add: getFitnessU_def getFitness_def)
qed

lemma drawParticipants_defined:
  assumes "unit_draws rnd" "population \<noteq> []" "\<forall>t\<in>set population. fitnesses t \<noteq> None"
    "\<forall>u\<in>set traders. \<exists>t. u = Some t \<and> t \<in> set population"
  shows "\<exists>ts n'. drawParticipants i population rnd traders n = Inr (map Some ts, n')
            \<and> length ts = length traders + i \<and> set ts \<subseteq> set population"
  using assms(4)
proof (induction i arbitrary: traders n)
  case 0
  have "map Some (map the traders) = traders"
    using "0.prems" by (induction traders) auto
  moreover have "set (map the traders) \<subseteq> set population"
    using "0.prems" by auto
  ultimately show ?case
    by (intro exI[of _ "map the traders"] exI[of _ n]) simp
next
  case (Suc i)
  from randomElement_Some[OF assms(2)] unit_drawsD[OF assms(1), of n] obtain c where
    c: "c \<in> set population" "randomElement population (rnd n) = Some c" by blast
  have tr: "\<forall>u\<in>set traders. \<exists>t. u = Some t \<and> fitnesses t \<noteq> None"
    using Suc.prems assms(3) by blast
  from redraw_defined[OF assms(1,2,3) tr c(1), of "length population" "Suc n"] obtain t n1 where
    t: "redraw (length population) population rnd traders (Some c) (Suc n) = Inr (Some t, n1)"
    "t \<in> set population" by blast
  have "\<forall>u\<in>set (traders @ [Some t]). \<exists>t. u = Some t \<and> t \<in> set population"
    using Suc.prems t(2) by auto
  from Suc.IH[OF this, of n1] obtain ts n' where
    "drawParticipants i population rnd (traders @ [Some t]) n1 = Inr (map Some ts, n')"
    "length ts = length (traders @ [Some t]) + i" "set ts \<subseteq> set population" by blast
  then show ?case using c(2) t(1) by simp
qed

lemma map_filter_Some: "List.map_filter (\<lambda>u. u) (map Some ts) = ts"
  by (induction ts) (simp_all add: List.map_filter_simps)

lemma tournamentSelection_defined:
  assumes "unit_draws rnd" "population \<noteq> []" "\<forall>t\<in>set population. fitnesses t \<noteq> None"
  shows "\<exists>t1 t2 n'. tournamentSelection population 4 rnd n = Inr ([Some t1, Some t2], n')
            \<and> t1 \<in> set population \<and> t2 \<in> set population"
proof -
  from drawParticipants_defined[OF assms, of "[]" 4 n] obtain ts n' where
    d: "drawParticipants 4 population rnd [] n = Inr (map Some ts, n')"
    "length ts = 4" "set ts \<subseteq> set population" by auto
  from d(3) assms(3) have "\<forall>t\<in>set ts. fitnesses t \<noteq> None" by blast
  from Array_sort_defined[OF this] obtain sorted where
    s: "Array_sort byFitnessDesc ts = Inr sorted" "mset sorted = mset ts" by blast
  from s(2) d(2) have "length sorted = 4" by (metis size_mset)
  then obtain t1 t2 t3 t4 where l: "sorted = [t1, t2, t3, t4]"
    by (auto simp: length_Suc_conv numeral_eq_Suc)
  from s(2) have "set sorted = set ts" by (metis set_mset_mset)
  with l d(3) have "t1 \<in> set population" "t2 \<in> set population" by auto
  moreover have "tournamentSelection population 4 rnd n = Inr ([Some t1, Some t2], n')"
    using d(1) s(1) l by (simp add: tournamentSelection_def map_filter_Some slice0_def)
  ultimately show ?thesis by blast
qed

lemma breedLoop_defined:
  assumes "unit_draws rnd" "population \<noteq> []" "\<forall>t\<in>set population. fitnesses t \<noteq> None"
  shows "\<exists>res n'. breedLoop k c population opts gen rnd acc n = Inr (res, n')"
proof (induction k arbitrary: acc n)
  case 0
  then show ?case by simp
next
  case (Suc k)
  from tournamentSelection_defined[OF assms, of "Suc n"] obtain t1 t2 n1 where
    t: "tournamentSelection population 4 rnd (Suc n) = Inr ([Some t1, Some t2], n1)" by blast
  from randomElement_Some[OF assms(2)] unit_drawsD[OF assms(1), of "Suc n"] obtain m where
    m: "randomElement population (rnd (Suc n)) = Some m" by blast
  show ?case
    unfolding breedLoop_Suc using t m Suc.IH by (simp add: elemAt_def)
qed

lemma breedNewGeneration_defined:
  assumes "unit_draws rnd" "population \<noteq> []" "\<forall>t\<in>set population. fitnesses t \<noteq> None"
  shows "\<exists>newGen n'. breedNewGeneration c population opts gen rnd n = Inr (newGen, n')"
proof -
  from rankGeneration_permutes[OF assms(3)] obtain ranked where
    r: "rankGeneration population = Inr ranked" "mset ranked = mset population" by blast
  from r(2) assms(2) have ne: "ranked \<noteq> []" by auto
  from r(2) assms(3) have d: "\<forall>t\<in>set ranked. fitnesses t \<noteq> None" by (metis set_mset_mset)
  from breedLoop_defined[OF assms(1) ne d] r(1) show ?thesis
    by (simp add: breedNewGeneration_def Let_def)
qed

lemma insertSorted_mset:
  "insertSorted cmp x ys = Inr zs \<Longrightarrow> mset zs = add_mset x (mset ys)"
proof (induction ys arbitrary: zs)
  case Nil
  then show ?case by auto
next
  case (Cons y ys)
  then show ?case
    by (auto simp: ebind_def split: sum.splits if_splits)
qed

lemma Array_sort_mset: "Array_sort cmp xs = Inr ys \<Longrightarrow> mset ys = mset xs"
proof (induction xs arbitrary: ys)
  case Nil
  then show ?case by auto
next
  case (Cons x xs)
  then show ?case
    by (auto simp: ebind_def split: sum.splits dest: insertSorted_mset)
qed

lemma emap_Inr_defined:
  "emap (\<lambda>t. getFitness t k) g = Inr fits \<Longrightarrow> (\<forall>t\<in>set g. fitnesses t \<noteq> None) \<and> length fits = length g"
proof (induction g arbitrary: fits)
  case Nil
  then show ?case by auto
next
  case (Cons t g)
  then show ?case
    by (auto simp: ebind_def getFitness_def split: sum.splits option.splits)
qed

lemma afterIdle_Inr:
  assumes "afterIdle population = Inr (g, cp)"
  shows "mset g = mset population \<and> g \<noteq> [] \<and> (\<forall>t\<in>set g. fitnesses t \<noteq> None)"
proof -
  from assms obtain fits where
    s: "Array_sort byFitnessDesc population = Inr g"
    and e: "emap (\<lambda>t. getFitness t ''total'') g = Inr fits"
    and m: "fits \<noteq> []"
    by (auto simp: afterIdle_def ebind_def mean_def split: sum.splits if_splits)
  from emap_Inr_defined[OF e] m have "g \<noteq> []" "\<forall>t\<in>set g. fitnesses t \<noteq> None" by auto
  with Array_sort_mset[OF s] show ?thesis by simp
qed

lemma geneticTurn_Inr:
  assumes "geneticTurn engines c opts gen prev rnd n = Inr r"
  shows "individuals r \<noteq> [] \<and> (\<forall>t\<in>set (individuals r). fitnesses t \<noteq> None)"
proof -
  from assms obtain ran cp where "afterIdle ran = Inr (individuals r, cp)"
    by (auto simp: geneticTurn_def Let_def split: sum.splits prod.splits option.splits)
  from afterIdle_Inr[OF this] show ?thesis by simp
qed

lemma makeFrom_no_gene:
  assumes "genes opts = []"
  shows "\<forall>t\<in>set (fst (makeFrom k c opts gen ind rnd n)). stratOpts (config t) = stratOpts c"
proof (induction k arbitrary: ind n)
  case 0
  then show ?case by simp
next
  case (Suc k)
  show ?case
    unfolding makeFrom_Suc using Suc assms by (simp add: randomIndiv_eq)
qed

lemma all_elite:
  assumes "popSize opts \<le> int (length population)" "int (length population) \<le> elitism opts"
    "\<forall>t\<in>set population. fitnesses t \<noteq> None"
  shows "\<exists>ranked. rankGeneration population = Inr ranked
           \<and> breedNewGeneration c population opts gen rnd n = Inr (ranked, n)"
proof -
  from rankGeneration_permutes[OF assms(3)] obtain ranked where
    r: "rankGeneration population = Inr ranked" "mset ranked = mset population" by blast
  from r(2) have "length ranked = length population" by (metis size_mset)
  with assms(1,2) have "slice0 ranked (elitism opts) = ranked"
    "nat (popSize opts - int (length ranked)) = 0"
    by (simp_all add: slice0_def)
  with r(1) show ?thesis by (simp add: breedNewGeneration_def)
qed

text \<open>
  C4, as it holds. Neither function looks at the validity of the options, and no option
  makes the build of a generation fail. \<open>makeGeneration\<close> returns \<open>popSize\<close> individuals
  for every configuration; without genes each carries the strategy options of the
  baseline. \<open>breedNewGeneration\<close> returns a generation whenever the prior generation is not
  empty and its individuals have records, which is so after every turn of the optimizer
  that did not throw; when \<open>elitism\<close> is at least the size of the prior generation, and that
  at least \<open>popSize\<close>, what it returns is the prior generation in ranked order, without
  a draw.
\<close>

theorem build_without_validation:
  "length (fst (makeGeneration traderConfig opts gen rnd n)) = nat (popSize opts)
   \<and> (genes opts = [] \<longrightarrow>
        (\<forall>t\<in>set (fst (makeGeneration traderConfig opts gen rnd n)).
            stratOpts (config t) = stratOpts traderConfig))
   \<and> (unit_draws rnd \<and> population \<noteq> [] \<and> (\<forall>t\<in>set population. fitnesses t \<noteq> None) \<longrightarrow>
        (\<exists>newGen n'. breedNewGeneration traderConfig population opts gen rnd n = Inr (newGen, n')))
   \<and> (unit_draws rnd \<and> geneticTurn engines traderConfig opts gen prev rnd n = Inr r \<longrightarrow>
        (\<exists>newGen n'. breedNewGeneration traderConfig (individuals r) opts (gen + 1) rnd (next_draw r)
                        = Inr (newGen, n')))
   \<and> (popSize opts \<le> int (length population) \<and> int (length population) \<le> elitism opts
        \<and> (\<forall>t\<in>set population. fitnesses t \<noteq> None) \<longrightarrow>
        (\<exists>ranked. rankGeneration population = Inr ranked
           \<and> breedNewGeneration traderConfig population opts gen rnd n = Inr (ranked, n)))"
proof (intro conjI impI)
  show "length (fst (makeGeneration traderConfig opts gen rnd n)) = nat (popSize opts)"
    by (simp add: makeGeneration_def)
  show "\<forall>t\<in>set (fst (makeGeneration traderConfig opts gen rnd n)). stratOpts (config t) = stratOpts traderConfig"
    if "genes opts = []"
    using makeFrom_no_gene[OF that] by (simp add: makeGeneration_def)
  show "\<exists>newGen n'. breedNewGeneration traderConfig population opts gen rnd n = Inr (newGen, n')"
    if "unit_draws rnd \<and> population \<noteq> [] \<and> (\<forall>t\<in>set population. fitnesses t \<noteq> None)"
    using that breedNewGeneration_defined by blast
  show "\<exists>newGen n'. breedNewGeneration traderConfig (individuals r) opts (gen + 1) rnd (next_draw r)
                        = Inr (newGen, n')"
    if "unit_draws rnd \<and> geneticTurn engines traderConfig opts gen prev rnd n = Inr r"
    using that geneticTurn_Inr[of engines traderConfig opts gen prev rnd n r]
      breedNewGeneration_defined[of rnd "individuals r"] by blast
  show "\<exists>ranked. rankGeneration population = Inr ranked
           \<and> breedNewGeneration traderConfig population opts gen rnd n = Inr (ranked, n)"
    if "popSize opts \<le> int (length population) \<and> int (length population) \<le> elitism opts
        \<and> (\<forall>t\<in>set population. fitnesses t \<noteq> None)"
    using that all_elite by blast
qed


lemma unit_draws_half: "unit_draws (\<lambda>n. 1 / 2)"
  by (simp add: unit_draws_def)

theorem build_without_validation_witness:
  "genes invalidOpts = [] \<and> unit_draws (\<lambda>n. 1 / 2)
   \<and> [scored ''a'' 3, scored ''b'' 5] \<noteq> []
   \<and> list_all (\<lambda>t. fitnesses t \<noteq> None) [scored ''a'' 3, scored ''b'' 5]
   \<and> popSize invalidOpts \<le> int (length [scored ''a'' 3, scored ''b'' 5])
   \<and> int (length [scored ''a'' 3, scored ''b'' 5]) \<le> elitism invalidOpts
   \<and> (\<exists>r. geneticTurn (\<lambda>i. okEngine) baseConfig invalidOpts 0 None (\<lambda>n. 1 / 2) 0 = Inr r
         \<and> (\<exists>newGen n'. breedNewGeneration baseConfig (individuals r) invalidOpts (0 + 1) (\<lambda>n. 1 / 2) (next_draw r)
                          = Inr (newGen, n')))
   \<and> length (fst (makeGeneration baseConfig invalidOpts 0 (\<lambda>n. 1 / 2) 0)) = 2
   \<and> list_all (\<lambda>t. stratOpts (config t) = stratOpts baseConfig)
         (fst (makeGeneration baseConfig invalidOpts 0 (\<lambda>n. 1 / 2) 0))
   \<and> (\<exists>ranked. rankGeneration [scored ''a'' 3, scored ''b'' 5] = Inr ranked
         \<and> breedNewGeneration baseConfig [scored ''a'' 3, scored ''b'' 5] invalidOpts 0 (\<lambda>n. 1 / 2) 0
             = Inr (ranked, 0))"
proof -
  have h1: "genes invalidOpts = []" by (simp add: invalidOpts_def)
  have h2: "[scored ''a'' 3, scored ''b'' 5] \<noteq> []" by simp
  have h3: "\<forall>t\<in>set [scored ''a'' 3, scored ''b'' 5]. fitnesses t \<noteq> None"
    by (simp add: scored_def)
  have h4: "popSize invalidOpts \<le> int (length [scored ''a'' 3, scored ''b'' 5])"
    "int (length [scored ''a'' 3, scored ''b'' 5]) \<le> elitism invalidOpts"
    "nat (popSize invalidOpts) = 2"
    by (simp_all add: invalidOpts_def)
  obtain r where h5: "geneticTurn (\<lambda>i. okEngine) baseConfig invalidOpts 0 None (\<lambda>n. 1 / 2) 0 = Inr r"
    using invalid_first_turn by (cases "geneticTurn (\<lambda>i. okEngine) baseConfig invalidOpts 0 None (\<lambda>n. 1 / 2) 0") auto
  from build_without_validation[where traderConfig = baseConfig and opts = invalidOpts
        and rnd = "\<lambda>n. 1 / 2" and gen = 0 and n = 0 and population = "[scored ''a'' 3, scored ''b'' 5]"
        and engines = "\<lambda>i. okEngine" and prev = None and r = r]
    h1 h2 h3 h4 h5 unit_draws_half
  show ?thesis unfolding list_all_iff by auto
qed

text \<open>
  C4, as stated, fails: with no gene and an elitism equal to the population size the first
  turn of the optimizer builds its generation, runs both trials and completes, and the
  build of the second generation from it succeeds as well.
\<close>

theorem invalid_options_run:
  "genes invalidOpts = [] \<and> popSize invalidOpts \<le> elitism invalidOpts
   \<and> \<not> isl (geneticTurn (\<lambda>i. okEngine) baseConfig invalidOpts 0 None (\<lambda>n. 1 / 2) 0)
   \<and> map task_calls (tasks (projr (geneticTurn (\<lambda>i. okEngine) baseConfig invalidOpts 0 None (\<lambda>n. 1 / 2) 0)))
       = [[Init, Start, Stop], [Init, Start, Stop]]
   \<and> \<not> isl (breedNewGeneration baseConfig
              (individuals (projr (geneticTurn (\<lambda>i. okEngine) baseConfig invalidOpts 0 None (\<lambda>n. 1 / 2) 0)))
              invalidOpts 1 (\<lambda>n. 1 / 2) 0)"
proof -
  let ?turn = "geneticTurn (\<lambda>i. okEngine) baseConfig invalidOpts 0 None (\<lambda>n. 1 / 2) 0"
  have a: "genes invalidOpts = [] \<and> popSize invalidOpts \<le> elitism invalidOpts"
    by (simp add: invalidOpts_def)
  from invalid_first_turn have "?turn = Inr (projr ?turn)" by (cases ?turn) auto
  from geneticTurn_Inr[OF this]
  have "individuals (projr ?turn) \<noteq> []" "\<forall>t\<in>set (individuals (projr ?turn)). fitnesses t \<noteq> None"
    by auto
  from breedNewGeneration_defined[OF unit_draws_half this, of baseConfig invalidOpts 1 0]
  have "\<not> isl (breedNewGeneration baseConfig (individuals (projr ?turn)) invalidOpts 1 (\<lambda>n. 1 / 2) 0)"
    by auto
  with a invalid_first_turn show ?thesis by simp
qed

section \<open>Properties of sampling, mutation and crossover\<close>

lemma listValue_ok:
  assumes "list g = Some l" "l \<noteq> []" "0 \<le> r" "r < 1"
  shows "gene_ok g (listValue l r)"
  using randomElement_Some[OF assms(2,3,4)] assms(1)
  by (auto simp: listValue_def gene_ok_def)

lemma randomBetween_real_range:
  assumes "lo \<le> hi" "0 \<le> r" "r < 1"
  shows "lo \<le> randomBetween lo hi False r \<and> randomBetween lo hi False r \<le> hi"
proof -
  have "0 \<le> r * (hi - lo)" using assms by simp
  moreover have "r * (hi - lo) \<le> 1 * (hi - lo)"
    using assms by (intro mult_right_mono) auto
  ultimately show ?thesis by (simp add: randomBetween_def)
qed

lemma randomBetween_int_range:
  assumes "lo \<le> hi" "lo = of_int \<lfloor>lo\<rfloor>" "hi = of_int \<lfloor>hi\<rfloor>" "0 \<le> r" "r < 1"
  shows "lo \<le> randomBetween lo hi True r \<and> randomBetween lo hi True r \<le> hi"
proof -
  let ?w = "hi - lo + 1"
  have w: "0 < ?w" using assms(1) by simp
  have a: "0 \<le> r * ?w" using assms(4) w by simp
  have b: "r * ?w < ?w" using assms(5) w by simp
  have "lo \<le> r * ?w + lo" using a by simp
  then have "\<lfloor>lo\<rfloor> \<le> \<lfloor>r * ?w + lo\<rfloor>" by (rule floor_mono)
  then have lower: "lo \<le> of_int \<lfloor>r * ?w + lo\<rfloor>"
    using assms(2) by (metis of_int_le_iff)
  have "r * ?w + lo < hi + 1" using b by simp
  then have "r * ?w + lo < of_int (\<lfloor>hi\<rfloor> + 1)" using assms(3) by simp
  then have "\<lfloor>r * ?w + lo\<rfloor> < \<lfloor>hi\<rfloor> + 1" by (simp only: floor_less_iff)
  then have "\<lfloor>r * ?w + lo\<rfloor> \<le> \<lfloor>hi\<rfloor>" by simp
  then have upper: "of_int \<lfloor>r * ?w + lo\<rfloor> \<le> hi"
    using assms(3) by (metis of_int_le_iff)
  from lower upper show ?thesis by (simp add: randomBetween_def)
qed

lemma randomBetween_ok:
  assumes "list g = None" "wf_gene g" "0 \<le> r" "r < 1"
  shows "gene_ok g (JNum (Num (randomBetween (min_gene g) (max_gene g) (integer g) r)))"
proof (cases "integer g")
  case True
  with assms(1,2) have "min_gene g \<le> max_gene g" "min_gene g = of_int \<lfloor>min_gene g\<rfloor>"
    "max_gene g = of_int \<lfloor>max_gene g\<rfloor>" by (simp_all add: wf_gene_def)
  from randomBetween_int_range[OF this assms(3,4)] True assms(1) show ?thesis
    by (simp add: gene_ok_def) (simp add: randomBetween_def)
next
  case False
  with assms(1,2) have "min_gene g \<le> max_gene g" by (simp add: wf_gene_def)
  from randomBetween_real_range[OF this assms(3,4)] False assms(1) show ?thesis
    by (simp add: gene_ok_def)
qed

lemma perturb_ok:
  assumes "list g = None" "wf_gene g" "old = Some (JNum (Num r0))"
  shows "gene_ok g (perturb g old r_dir r_step)"
proof -
  define d where "d = (max_gene g - min_gene g) * randomBetween 0.005 0.5 False r_step
                        * (if randomBetween 0 1 True r_dir = 0 then - 1 else 1)"
  define v where "v = (if r0 + d < min_gene g then min_gene g
                       else if max_gene g < r0 + d then max_gene g else r0 + d)"
  have le: "min_gene g \<le> max_gene g" using assms(1,2) by (simp add: wf_gene_def)
  have p: "perturb g old r_dir r_step = JNum (if integer g then Num (of_int \<lfloor>v\<rfloor>) else Num v)"
    using assms(3) by (simp add: perturb_def Let_def numberOf_def jgt_def d_def v_def)
  have range: "min_gene g \<le> v" "v \<le> max_gene g" using le by (auto simp: v_def)
  show ?thesis
  proof (cases "integer g")
    case True
    with assms(1,2) have whole: "min_gene g = of_int \<lfloor>min_gene g\<rfloor>" by (simp add: wf_gene_def)
    have "\<lfloor>min_gene g\<rfloor> \<le> \<lfloor>v\<rfloor>" using range(1) by (rule floor_mono)
    then have "min_gene g \<le> of_int \<lfloor>v\<rfloor>" using whole by (metis of_int_le_iff)
    moreover have "of_int \<lfloor>v\<rfloor> \<le> max_gene g" using range(2) of_int_floor_le[of v] by linarith
    ultimately show ?thesis using True assms(1) p by (simp add: gene_ok_def)
  next
    case False
    with range assms(1) p show ?thesis by (simp add: gene_ok_def)
  qed
qed

lemma genome_ok_iff:
  "genome_ok gs m \<longleftrightarrow> (\<forall>g\<in>set gs. \<exists>v. m (key g) = Some v \<and> gene_ok g v)"
  by (auto simp: genome_ok_def list_all_iff split: option.splits)

lemma genome_ok_update:
  assumes "genome_ok gs m" "g \<in> set gs" "distinct (map key gs)" "gene_ok g v"
  shows "genome_ok gs (m(key g \<mapsto> v))"
proof -
  have "g' = g" if "g' \<in> set gs" "key g' = key g" for g'
    using that assms(2,3) by (meson distinct_map inj_onD)
  with assms(1,4) show ?thesis
    by (auto simp: genome_ok_iff)
qed

lemma fold_preserves:
  assumes "\<And>g m n. g \<in> set gs \<Longrightarrow> P m \<Longrightarrow> P (fst (step g (m, n)))" "P m"
  shows "P (fst (fold step gs (m, n)))"
  using assms
proof (induction gs arbitrary: m n)
  case Nil
  then show ?case by simp
next
  case (Cons g gs)
  have "P (fst (step g (m, n)))" using Cons.prems by simp
  moreover have "fold step (g # gs) (m, n)
                   = fold step gs (fst (step g (m, n)), snd (step g (m, n)))" by simp
  ultimately show ?case using Cons.IH[of "fst (step g (m, n))" "snd (step g (m, n))"] Cons.prems(1)
    by simp
qed

lemma sampleGene_step:
  assumes "wf_gene g" "0 \<le> rnd n" "rnd n < 1"
  shows "\<exists>v. gene_ok g v \<and> sampleGene rnd g (m, n) = (m(key g \<mapsto> v), Suc n)"
proof (cases "list g")
  case None
  with randomBetween_ok[OF None assms] show ?thesis by (auto simp: sampleGene_def)
next
  case (Some l)
  with assms(1) have "l \<noteq> []" by (simp add: wf_gene_def)
  from listValue_ok[OF Some this assms(2,3)] Some show ?thesis by (auto simp: sampleGene_def)
qed

lemma sampleGene_other_key:
  "k \<noteq> key g \<Longrightarrow> fst (sampleGene rnd g (m, n)) k = m k"
  by (simp add: sampleGene_def split: option.splits)

lemma sample_fold_untouched:
  "k \<notin> key ` set gs \<Longrightarrow> fst (fold (sampleGene rnd) gs (m, n)) k = m k"
proof (induction gs arbitrary: m n)
  case Nil
  then show ?case by simp
next
  case (Cons g gs)
  obtain m1 n1 where s: "sampleGene rnd g (m, n) = (m1, n1)" by (cases "sampleGene rnd g (m, n)")
  from Cons.prems have "k \<noteq> key g" "k \<notin> key ` set gs" by auto
  from sampleGene_other_key[OF this(1), of rnd m n] s have "m1 k = m k" by simp
  with Cons.IH[OF \<open>k \<notin> key ` set gs\<close>, of m1 n1] s show ?case by simp
qed

lemma sample_fold_ok:
  assumes "unit_draws rnd" "\<forall>g\<in>set gs. wf_gene g" "distinct (map key gs)"
  shows "genome_ok gs (fst (fold (sampleGene rnd) gs (m, n)))"
  using assms(2,3)
proof (induction gs arbitrary: m n)
  case Nil
  then show ?case by (simp add: genome_ok_def)
next
  case (Cons g gs)
  from Cons.prems unit_drawsD[OF assms(1), of n] obtain v where
    v: "gene_ok g v" "sampleGene rnd g (m, n) = (m(key g \<mapsto> v), Suc n)"
    using sampleGene_step[of g rnd n m] by auto
  let ?m' = "fst (fold (sampleGene rnd) gs (m(key g \<mapsto> v), Suc n))"
  have rest: "genome_ok gs ?m'" using Cons by simp
  have "key g \<notin> key ` set gs" using Cons.prems(2) by auto
  from sample_fold_untouched[OF this] have "?m' (key g) = Some v" by simp
  with rest v show ?case by (simp add: genome_ok_def)
qed

lemma genome_ok_numeric:
  assumes "genome_ok gs m" "g \<in> set gs" "list g = None"
  shows "\<exists>r. m (key g) = Some (JNum (Num r))"
proof -
  from assms(1,2) obtain v where v: "m (key g) = Some v" "gene_ok g v"
    by (auto simp: genome_ok_iff)
  from v(2) assms(3) obtain r where "v = JNum (Num r)"
    by (auto simp: gene_ok_def split: jsval.splits number.splits)
  with v(1) show ?thesis by simp
qed

lemma mutateGene_preserves:
  assumes "unit_draws rnd" "\<forall>g\<in>set gs. wf_gene g" "distinct (map key gs)"
    "genome_ok gs oldOpts" "g \<in> set gs" "genome_ok gs m"
  shows "genome_ok gs (fst (mutateGene rnd rate oldOpts g (m, n)))"
proof (cases "list g")
  case None
  from genome_ok_numeric[OF assms(4,5) None] obtain r0 where
    "oldOpts (key g) = Some (JNum (Num r0))" by blast
  from perturb_ok[OF None _ this] assms(2,5)
  have "gene_ok g (perturb g (oldOpts (key g)) (rnd (n + 1)) (rnd (n + 2)))" by simp
  from genome_ok_update[OF assms(6,5,3) this] assms(6) None show ?thesis
    by (simp add: mutateGene_def)
next
  case (Some l)
  with assms(2,5) have "l \<noteq> []" by (auto simp: wf_gene_def)
  from listValue_ok[OF Some this] unit_drawsD[OF assms(1), of "n + 1"]
  have "gene_ok g (listValue l (rnd (n + 1)))" by simp
  from genome_ok_update[OF assms(6,5,3) this] assms(6) Some show ?thesis
    by (simp add: mutateGene_def)
qed

lemma crossGene_preserves:
  assumes "unit_draws rnd" "\<forall>g\<in>set gs. wf_gene g" "distinct (map key gs)"
    "genome_ok gs optsA" "g \<in> set gs" "genome_ok gs m"
  shows "genome_ok gs (fst (crossGene rnd optsA g (m, n)))"
proof (cases "list g")
  case None
  from assms(4,5) obtain v where "optsA (key g) = Some v" "gene_ok g v"
    by (auto simp: genome_ok_iff)
  then have "gene_ok g (valueOf (optsA (key g)))" by (simp add: valueOf_def)
  from genome_ok_update[OF assms(6,5,3) this] assms(6) None show ?thesis
    by (simp add: crossGene_def)
next
  case (Some l)
  with assms(2,5) have "l \<noteq> []" by (auto simp: wf_gene_def)
  from listValue_ok[OF Some this] unit_drawsD[OF assms(1), of "n + 1"]
  have "gene_ok g (listValue l (rnd (n + 1)))" by simp
  from genome_ok_update[OF assms(6,5,3) this] assms(6) Some show ?thesis
    by (simp add: crossGene_def)
qed

lemma resampleGene_preserves:
  assumes "unit_draws rnd" "\<forall>g\<in>set gs. wf_gene g" "distinct (map key gs)"
    "g \<in> set gs" "genome_ok gs m"
  shows "genome_ok gs (fst (resampleGene rnd rate g (m, n)))"
proof (cases "list g")
  case None
  from randomBetween_ok[OF None] assms(2,4) unit_drawsD[OF assms(1), of "n + 1"]
  have "gene_ok g (JNum (Num (randomBetween (min_gene g) (max_gene g) (integer g) (rnd (n + 1)))))"
    by simp
  from genome_ok_update[OF assms(5,4,3) this] assms(5) None show ?thesis
    by (simp add: resampleGene_def)
next
  case (Some l)
  with assms(2,4) have "l \<noteq> []" by (auto simp: wf_gene_def)
  from listValue_ok[OF Some this] unit_drawsD[OF assms(1), of "n + 1"]
  have "gene_ok g (listValue l (rnd (n + 1)))" by simp
  from genome_ok_update[OF assms(5,4,3) this] assms(5) Some show ?thesis
    by (simp add: resampleGene_def)
qed

lemma crossover_stratOpts:
  "stratOpts (config (fst (crossover nm a b opts rnd n))) =
     (let crossed = fold (crossGene rnd (stratOpts (config a))) (genes opts) (stratOpts (config b), n)
      in if randomBetween 0 1 False (rnd (snd crossed)) < 0.25
         then fst (fold (resampleGene rnd (mutationRate opts)) (genes opts) (fst crossed, snd crossed + 1))
         else fst crossed)"
  by (simp add: crossover_def case_prod_beta Let_def)




lemma randomBetween_unit [simp]: "randomBetween 0 1 False r = r"
  by (simp add: randomBetween_def)

lemma fold_crossGene:
  "fold (crossGene rnd genomeA) gs (child, n) = spec_cross rnd genomeA gs child n"
  by (induction gs arbitrary: child n)
     (simp_all add: crossGene_def spec_sample_def split: option.splits)

lemma fold_resampleGene:
  "fold (resampleGene rnd rate) gs (child, n) = resample_pass rnd rate gs child n"
  by (induction gs arbitrary: child n)
     (simp_all add: resampleGene_def spec_sample_def split: option.splits)

lemma sampleGene_spec_sample:
  "sampleGene rnd g (m, n) = (m(key g \<mapsto> spec_sample g (rnd n)), Suc n)"
  by (simp add: sampleGene_def spec_sample_def split: option.splits)

lemma spec_cross_untouched:
  "k \<notin> key ` set gs \<Longrightarrow> fst (spec_cross rnd genomeA gs child n) k = child k"
  by (induction gs arbitrary: child n) (auto split: option.splits)

lemma resample_pass_untouched:
  "k \<notin> key ` set gs \<Longrightarrow> fst (resample_pass rnd rate gs child n) k = child k"
  by (induction gs arbitrary: child n) auto

text \<open>
  C5, as it holds. \<open>crossover\<close> is the crossover of section 4.4 with, in the place of the
  mutation pass of section 4.5, a pass that samples afresh: start from parent B's genome;
  for each gene, with probability 0.5, take parent A's value, or a uniform element of the
  list for a categorical gene; then, with probability 0.25, go through the genes once
  more and give each, with probability \<open>mutationRate\<close>, a new uniform sample (an element of
  the list, or \<open>randomBetween(min, max, integer)\<close>). Options that are no gene's are those of
  parent B, and the child is returned with the given name, not run and without records.
\<close>

theorem crossover_resamples:
  "crossover nm traderA traderB opts rnd n = amended_crossover nm traderA traderB opts rnd n
   \<and> (k \<notin> key ` set (genes opts) \<longrightarrow>
        stratOpts (config (fst (crossover nm traderA traderB opts rnd n))) k
          = stratOpts (config traderB) k)
   \<and> name (config (fst (crossover nm traderA traderB opts rnd n))) = nm
   \<and> hasRunned (fst (crossover nm traderA traderB opts rnd n)) = False
   \<and> fitnesses (fst (crossover nm traderA traderB opts rnd n)) = None"
proof -
  have eq: "crossover nm traderA traderB opts rnd n = amended_crossover nm traderA traderB opts rnd n"
    by (simp add: crossover_def amended_crossover_def fold_crossGene fold_resampleGene
        split: prod.splits)
  have "stratOpts (config (fst (amended_crossover nm traderA traderB opts rnd n))) k
          = stratOpts (config traderB) k" if "k \<notin> key ` set (genes opts)"
    using that
    by (simp add: amended_crossover_def case_prod_beta spec_cross_untouched resample_pass_untouched)
  moreover have "name (config (fst (amended_crossover nm traderA traderB opts rnd n))) = nm"
    "hasRunned (fst (amended_crossover nm traderA traderB opts rnd n)) = False"
    "fitnesses (fst (amended_crossover nm traderA traderB opts rnd n)) = None"
    by (simp_all add: amended_crossover_def case_prod_beta)
  ultimately show ?thesis using eq by simp
qed

theorem crossover_resamples_witness:
  "''silent'' \<notin> key ` set (genes threeEnvs)
   \<and> stratOpts (config (fst (crossover ''run-gen1-ind1'' firstWorker firstWorker threeEnvs crossDraws 0))) ''silent''
       = stratOpts (config firstWorker) ''silent''
   \<and> crossover ''run-gen1-ind1'' firstWorker firstWorker threeEnvs crossDraws 0
       = amended_crossover ''run-gen1-ind1'' firstWorker firstWorker threeEnvs crossDraws 0"
proof -
  have h: "''silent'' \<notin> key ` set (genes threeEnvs)" by (simp add: threeEnvs_def)
  from crossover_resamples[of "''run-gen1-ind1''" firstWorker firstWorker threeEnvs crossDraws 0 "''silent''"] h
  show ?thesis by blast
qed

text \<open>
  C5, as stated, fails in its extra pass. Both parents have \<open>x = 5\<close> for the integer gene
  with range \<open>[0, 10]\<close>; the child keeps 5 and is picked for the extra pass, and its gene for
  a change. The source samples afresh and gives 10; the mutation of section 4.5 moves the
  value by at most half the range, less than 5 here, and gives 9 with the same draws.
\<close>

theorem crossover_not_mutation_pass:
  "stratOpts (config (fst (crossover ''run-gen1-ind1'' firstWorker firstWorker threeEnvs crossDraws 0))) ''x''
     = Some (JNum (Num 10))
   \<and> stratOpts (config (fst (spec_crossover ''run-gen1-ind1'' firstWorker firstWorker threeEnvs crossDraws 0))) ''x''
       = Some (JNum (Num 9))"
proof -
  have g: "genes threeEnvs = [\<lparr> key = ''x'', min_gene = 0, max_gene = 10, integer = True, list = None \<rparr>]"
    "mutationRate threeEnvs = 1 / 2"
    by (simp_all add: threeEnvs_def)
  have p: "stratOpts (config firstWorker) = [''x'' \<mapsto> JNum (Num 5)]"
    by (simp add: firstWorker_def baseConfig_def)
  have a: "stratOpts (config (fst (crossover ''run-gen1-ind1'' firstWorker firstWorker threeEnvs crossDraws 0))) ''x''
     = Some (JNum (Num 10))"
    by (simp add: crossover_stratOpts g p crossGene_def resampleGene_def crossDraws_def
        randomBetween_def Let_def)
  have b: "stratOpts (config (fst (spec_crossover ''run-gen1-ind1'' firstWorker firstWorker threeEnvs crossDraws 0))) ''x''
       = Some (JNum (Num 9))"
    by (simp add: spec_crossover_def spec_mutation_pass_def g p mutateGene_def perturb_def
        numberOf_def jgt_def crossDraws_def randomBetween_def Let_def)
  from a b show ?thesis by simp
qed

lemma perturb_stays_below:
  assumes "0 \<le> r_step" "r_step < 1"
  shows "perturb \<lparr> key = ''x'', min_gene = 0, max_gene = 10, integer = True, list = None \<rparr>
           (Some (JNum (Num 5))) r_dir r_step \<noteq> JNum (Num 10)"
proof -
  let ?step = "randomBetween 0.005 0.5 False r_step"
  have s: "?step < 1 / 2" "0 \<le> ?step" using assms by (simp_all add: randomBetween_def)
  let ?d = "10 * ?step * (if randomBetween 0 1 True r_dir = 0 then - 1 else 1)"
  let ?v = "if 5 + ?d < 0 then 0 else if 10 < 5 + ?d then 10 else 5 + ?d"
  have "perturb \<lparr> key = ''x'', min_gene = 0, max_gene = 10, integer = True, list = None \<rparr>
           (Some (JNum (Num 5))) r_dir r_step = JNum (Num (of_int \<lfloor>?v\<rfloor>))"
    by (simp add: perturb_def Let_def numberOf_def jgt_def)
  moreover have "?v < 10" using s by (auto split: if_splits)
  then have "\<lfloor>?v\<rfloor> < 10" by (simp only: floor_less_iff of_int_numeral)
  then have "(of_int \<lfloor>?v\<rfloor> :: real) \<noteq> 10" by linarith
  ultimately show ?thesis by simp
qed

section \<open>A breeding step, evaluated\<close>

lemma crossover_child_fields:
  "name (config (fst (crossover nm a b opts rnd n))) = nm"
  "hasRunned (fst (crossover nm a b opts rnd n)) = False"
  "fitnesses (fst (crossover nm a b opts rnd n)) = None"
  using crossover_created[of nm a b opts rnd n] by auto

text \<open>A generation bred from the four scored individuals with every draw equal to one half:
  the elite, then two crossover children of the individual that every draw selects.\<close>

lemma breeding_example:
  "map (\<lambda>t. (name (config t), stratOpts (config t) ''x'', hasRunned t))
     (fst (projr (breedNewGeneration baseConfig fourScored (threeEnvs\<lparr> popSize := 3 \<rparr>) 1 (\<lambda>n. 1 / 2) 0)))
   = [(''b'', Some (JNum (Num 5)), True),
      (''run-gen1-ind1'', Some (JNum (Num 5)), False),
      (''run-gen1-ind2'', Some (JNum (Num 5)), False)]"
proof -
  have s: "stratOpts (config (scored nm x)) = [''x'' \<mapsto> JNum (Num 5)]"
    "name (config (scored nm x)) = nm" "hasRunned (scored nm x)"
    "trader_config (trader (scored nm x)) = config (scored nm x)" for nm x
    by (simp_all add: scored_def baseConfig_def)
  have g: "genes (threeEnvs\<lparr> popSize := 3 \<rparr>) = [\<lparr> key = ''x'', min_gene = 0, max_gene = 10, integer = True, list = None \<rparr>]"
    "elitism (threeEnvs\<lparr> popSize := 3 \<rparr>) = 1" "popSize (threeEnvs\<lparr> popSize := 3 \<rparr>) = 3"
    by (simp_all add: threeEnvs_def)
  have n: "name baseConfig = ''run''" by (simp add: baseConfig_def)
  have pick: "randomElement [scored ''b'' 5, scored ''a'' 3, scored ''d'' 1, scored ''c'' 5] (1 / 2)
                = Some (scored ''d'' 1)"
    by (simp add: randomElement_def randomBetween_def)
  have t: "tournamentSelection [scored ''b'' 5, scored ''a'' 3, scored ''d'' 1, scored ''c'' 5] 4 (\<lambda>n. 1 / 2) k
             = Inr ([Some (scored ''d'' 1), Some (scored ''d'' 1)], k + 16)" for k
    by (simp add: tournamentSelection_def numeral_eq_Suc pick getFitnessU_def jeq_def
        List.map_filter_simps byFitnessDesc_def jsub_def jgt_def slice0_def)
  have k: "nat (3 - int (length [scored ''b'' 5])) = Suc (Suc 0)" by simp
  show ?thesis
    by (simp add: breedNewGeneration_def ranking_example g slice0_def numeral_2_eq_2
        breedLoop_Suc t elemAt_def crossover_stratOpts crossover_child_fields s crossGene_def
        indivName_def string_of_int_def n Let_def del: breedLoop.simps(2))
qed

section \<open>Every generation of the optimizer is coherent\<close>

text \<open>The first generation is, breeding keeps it so, and so does a turn of the optimizer:
  the assumption made of the generation above holds whenever it is needed.\<close>

lemma makeGeneration_coherent:
  "\<forall>t\<in>set (fst (makeGeneration c opts gen rnd n)). coherent t"
  unfolding makeGeneration_def
  using makeFrom_created[of "nat (popSize opts)" c opts gen 0 rnd n] by auto

lemma mset_splice: "mset (splice xs i x) = add_mset x (mset xs)"
proof -
  have "mset (take i xs) + mset (drop i xs) = mset xs"
    by (metis append_take_drop_id mset_append)
  then show ?thesis by (simp add: splice_def)
qed

lemma resortFrom_mset:
  "resortFrom prev rest st = Inr st' \<Longrightarrow> mset (fst st') = mset (fst st) + mset rest"
proof (induction rest arbitrary: prev st)
  case Nil
  then show ?case by simp
next
  case (Cons x xs)
  obtain res cur where st: "st = (res, cur)" by (cases st)
  from Cons.prems st consider
    (same) "resortFrom x xs (res @ [x], cur) = Inr st'"
    | (other) "resortFrom x xs (splice res cur x, cur + 1) = Inr st'"
    by (auto simp: ebind_def split: sum.splits if_splits)
  then show ?case
  proof cases
    case same
    from Cons.IH[OF same] st show ?thesis by simp
  next
    case other
    from Cons.IH[OF other] st show ?thesis by (simp add: mset_splice)
  qed
qed

lemma resort_mset: "resort xs = Inr ys \<Longrightarrow> mset ys = mset xs"
proof (cases xs)
  case Nil
  then show "resort xs = Inr ys \<Longrightarrow> mset ys = mset xs" by (simp add: resort_def)
next
  case (Cons x rest)
  assume "resort xs = Inr ys"
  with Cons obtain st where "resortFrom x rest ([x], 1) = Inr st" "ys = fst st"
    by (auto simp: resort_def ebind_def split: sum.splits)
  with resortFrom_mset[of x rest "([x], 1)" st] Cons show "mset ys = mset xs" by simp
qed

lemma rankGeneration_mset: "rankGeneration xs = Inr ys \<Longrightarrow> mset ys = mset xs"
  by (auto simp: rankGeneration_def ebind_def split: sum.splits
      dest!: Array_sort_mset resort_mset)

lemma breedNewGeneration_coherent:
  assumes "breedNewGeneration c population opts gen rnd n = Inr (newGen, n')"
    "\<forall>t\<in>set population. coherent t"
  shows "\<forall>t\<in>set newGen. coherent t"
proof -
  from breedNewGeneration_Inr[OF assms(1)] obtain ranked children where
    r: "rankGeneration population = Inr ranked"
    and g: "newGen = slice0 ranked (elitism opts) @ children"
    and f: "\<forall>t\<in>set children. fresh t"
    by blast
  from rankGeneration_mset[OF r] have "set ranked = set population" by (metis set_mset_mset)
  moreover have "set (slice0 ranked (elitism opts)) \<subseteq> set ranked"
    by (simp add: slice0_def set_take_subset)
  ultimately show ?thesis using assms(2) g f fresh_coherent by auto
qed

lemma geneticTurn_coherent:
  assumes "geneticTurn engines c opts gen prev rnd n = Inr r" "envs opts \<noteq> []"
    "case prev of None \<Rightarrow> True | Some g \<Rightarrow> \<forall>t\<in>set g. coherent t"
  shows "\<forall>t\<in>set (individuals r). coherent t \<and> recordsOf t \<noteq> []"
proof -
  from assms(1) obtain population n1 cp where
    b: "(case prev of None \<Rightarrow> Inr (makeGeneration c opts gen rnd n)
         | Some g \<Rightarrow> breedNewGeneration c g opts gen rnd n) = Inr (population, n1)"
    and a: "afterIdle (map task_worker (runGeneration engines opts population)) = Inr (individuals r, cp)"
    by (auto simp: geneticTurn_def Let_def split: sum.splits prod.splits)
  have coh: "\<forall>t\<in>set population. coherent t"
  proof (cases prev)
    case None
    with b have "population = fst (makeGeneration c opts gen rnd n)" by simp
    then show ?thesis using makeGeneration_coherent by simp
  next
    case (Some g)
    with b assms(3) show ?thesis using breedNewGeneration_coherent[of c g opts gen rnd n population n1]
      by simp
  qed
  from afterIdle_Inr[OF a] have "set (individuals r) = set (map task_worker (runGeneration engines opts population))"
    by (metis set_mset_mset)
  with runGeneration_records[OF assms(2) coh, of engines]
  show ?thesis by (auto simp: coherent_def recordsOf_def)
qed

end
